theory Spec2Isabelle
  imports Main "HOL-Library.AList"
begin

section \<open>Python values\<close>

text \<open>
  The script \<^verbatim>\<open>custom-check.py\<close> works on strings, booleans, lists and dictionaries.
  A Python \<^verbatim>\<open>str\<close> is a sequence of Unicode code points, so it is modelled as a list of
  natural numbers (an Isabelle \<open>char\<close> is a byte and could not hold the two glyphs the
  script prints). \<open>ascii\<close> turns an Isabelle string literal into such a sequence.
\<close>

type_synonym pystr = "nat list"

definition ascii :: "string \<Rightarrow> pystr" where
  "ascii s = map of_char s"

text \<open>
  A dictionary keeps its insertion order (which \<^verbatim>\<open>json.dumps\<close> and iteration follow), so
  it is an association list; the keys of a dictionary are pairwise distinct. All keys of
  the script are strings.
\<close>

datatype pyval =
    PNone
  | PBool bool
  | PStr pystr
  | PList "pyval list"
  | PDict "(pystr \<times> pyval) list"

text \<open>
  An exception that nothing catches is the left summand of the result. \<open>NotModelled\<close>
  is not a Python exception: it marks the one place where the model stops (the
  \<^verbatim>\<open>repr\<close> of a container inside an f-string, which depends on Unicode tables, and
  number literals in a JSON text).
\<close>

datatype pyerror =
    KeyError pystr
  | TypeError
  | AttributeError
  | UnicodeEncodeError
  | JSONDecodeError
  | NotModelled

definition and_then :: "'e + 'a \<Rightarrow> ('a \<Rightarrow> 'e + 'b) \<Rightarrow> 'e + 'b" where
  "and_then m f = (case m of Inl e \<Rightarrow> Inl e | Inr x \<Rightarrow> f x)"

text \<open>Truth value testing, as \<^verbatim>\<open>not x\<close> and \<^verbatim>\<open>if x\<close> do it.\<close>

fun truthy :: "pyval \<Rightarrow> bool" where
  "truthy PNone = False"
| "truthy (PBool b) = b"
| "truthy (PStr s) = (s \<noteq> [])"
| "truthy (PList xs) = (xs \<noteq> [])"
| "truthy (PDict d) = (d \<noteq> [])"

text \<open>\<^verbatim>\<open>d[k]\<close> with a string key: KeyError on a dictionary without the key, TypeError on
  every other value.\<close>

fun subscript :: "pyval \<Rightarrow> pystr \<Rightarrow> pyerror + pyval" where
  "subscript (PDict d) k = (case map_of d k of None \<Rightarrow> Inl (KeyError k) | Some v \<Rightarrow> Inr v)"
| "subscript _ k = Inl TypeError"

text \<open>\<^verbatim>\<open>d.get(k)\<close>: \<^verbatim>\<open>None\<close> for a missing key; only a dictionary has the method.\<close>

fun py_get :: "pyval \<Rightarrow> pystr \<Rightarrow> pyerror + pyval" where
  "py_get (PDict d) k = (case map_of d k of None \<Rightarrow> Inr PNone | Some v \<Rightarrow> Inr v)"
| "py_get _ k = Inl AttributeError"

text \<open>\<^verbatim>\<open>d[k] = v\<close>: an existing key keeps its place, a new key goes to the end.\<close>

fun setitem :: "pyval \<Rightarrow> pystr \<Rightarrow> pyval \<Rightarrow> pyerror + pyval" where
  "setitem (PDict d) k v = Inr (PDict (AList.update k v d))"
| "setitem _ k v = Inl TypeError"

text \<open>\<^verbatim>\<open>xs.append(x)\<close>: only a list has the method.\<close>

fun py_append :: "pyval \<Rightarrow> pyval \<Rightarrow> pyerror + pyval" where
  "py_append (PList xs) x = Inr (PList (xs @ [x]))"
| "py_append _ x = Inl AttributeError"

text \<open>Iteration (\<^verbatim>\<open>for c in v\<close>): the items of a list, the keys of a dictionary, the
  characters of a string.\<close>

fun py_iter :: "pyval \<Rightarrow> pyerror + pyval list" where
  "py_iter (PList xs) = Inr xs"
| "py_iter (PDict d) = Inr (map (\<lambda>kv. PStr (fst kv)) d)"
| "py_iter (PStr s) = Inr (map (\<lambda>c. PStr [c]) s)"
| "py_iter _ = Inl TypeError"

text \<open>A replacement field \<^verbatim>\<open>{x}\<close> of an f-string: \<^verbatim>\<open>format(x, '')\<close>, which is
  \<^verbatim>\<open>str(x)\<close> for these types.\<close>

fun py_format :: "pyval \<Rightarrow> pyerror + pystr" where
  "py_format (PStr s) = Inr s"
| "py_format PNone = Inr (ascii ''None'')"
| "py_format (PBool b) = Inr (ascii (if b then ''True'' else ''False''))"
| "py_format _ = Inl NotModelled"

text \<open>A list comprehension \<^verbatim>\<open>[c for c in xs if p(c)]\<close> whose condition may raise.\<close>

fun filter_r :: "('a \<Rightarrow> pyerror + bool) \<Rightarrow> 'a list \<Rightarrow> pyerror + 'a list" where
  "filter_r p [] = Inr []"
| "filter_r p (x # xs) =
     and_then (p x) (\<lambda>b. and_then (filter_r p xs) (\<lambda>ys. Inr (if b then x # ys else ys)))"


section \<open>The world the script runs in\<close>

text \<open>
  \<open>environ\<close> is \<^verbatim>\<open>os.environ\<close>; \<open>utcnow_isoformat\<close> is the value of
  \<^verbatim>\<open>datetime.utcnow().isoformat()\<close> at the moment of the call. The other two fields
  describe the interpreter and its standard output:
  \<^item> \<open>utcnow_warning\<close> is what the interpreter writes to standard error when
    \<^verbatim>\<open>datetime.utcnow\<close> is called: nothing up to Python 3.11, the text of a
    DeprecationWarning from Python 3.12 on (with the default warning filters, the script
    being run as \<^verbatim>\<open>__main__\<close>);
  \<^item> \<open>stdout_encodes\<close> tells which code points beyond ASCII the encoding of standard
    output can encode: none for an ASCII stream, all but the surrogates for UTF-8.
\<close>

record world =
  environ :: "pystr \<rightharpoonup> pystr"
  utcnow_isoformat :: pystr
  utcnow_warning :: "pystr option"
  stdout_encodes :: "nat \<Rightarrow> bool"

text \<open>What a call does to the world around the process, in the order it does it.\<close>

datatype effect = ReadClock | ReadEnv pystr | WriteStdout pystr | WriteStderr pystr

text \<open>\<^verbatim>\<open>os.environ.get(key, default)\<close>: the value, and the call with the read it makes.\<close>

definition environ_get :: "world \<Rightarrow> pystr \<Rightarrow> pystr \<Rightarrow> pystr" where
  "environ_get w key dflt = (case environ w key of None \<Rightarrow> dflt | Some v \<Rightarrow> v)"

definition environ_get_call :: "world \<Rightarrow> pystr \<Rightarrow> pystr \<Rightarrow> effect list \<times> pystr" where
  "environ_get_call w key dflt = ([ReadEnv key], environ_get w key dflt)"

text \<open>\<^verbatim>\<open>datetime.utcnow().isoformat()\<close>: the deprecation warning, where the interpreter
  gives one, comes before the clock is read.\<close>

definition utcnow_call :: "world \<Rightarrow> effect list \<times> pystr" where
  "utcnow_call w =
     ((case utcnow_warning w of None \<Rightarrow> [] | Some t \<Rightarrow> [WriteStderr t]) @ [ReadClock],
      utcnow_isoformat w)"


section \<open>check\_health\<close>

text \<open>\<^verbatim>\<open>result["checks"].append(x)\<close>: the list object held by the dictionary is changed in
  place, which in the model is a new list stored under the same key.\<close>

definition checks_append :: "pyval \<Rightarrow> pyval \<Rightarrow> pyerror + pyval" where
  "checks_append result x =
     and_then (subscript result (ascii ''checks'')) (\<lambda>xs.
     and_then (py_append xs x) (\<lambda>xs'.
     setitem result (ascii ''checks'') xs'))"

text \<open>Line 58: \<^verbatim>\<open>failed_checks = [c for c in result["checks"] if not c["ok"]]\<close>\<close>

definition failed_checks :: "pyval \<Rightarrow> pyerror + pyval list" where
  "failed_checks result =
     and_then (subscript result (ascii ''checks'')) (\<lambda>cs.
     and_then (py_iter cs) (\<lambda>items.
     filter_r (\<lambda>c. and_then (subscript c (ascii ''ok'')) (\<lambda>v. Inr (\<not> truthy v))) items))"

text \<open>Line 59:
  \<^verbatim>\<open>warning_count = len([c for c in failed_checks if c.get("severity") != "critical"])\<close>\<close>

definition warning_count :: "pyval list \<Rightarrow> pyerror + nat" where
  "warning_count failed =
     and_then
       (filter_r (\<lambda>c. and_then (py_get c (ascii ''severity''))
                        (\<lambda>v. Inr (v \<noteq> PStr (ascii ''critical'')))) failed)
       (\<lambda>ws. Inr (length ws))"

text \<open>Line 60:
  \<^verbatim>\<open>critical_count = len([c for c in failed_checks if c.get("severity") == "critical"])\<close>\<close>

definition critical_count :: "pyval list \<Rightarrow> pyerror + nat" where
  "critical_count failed =
     and_then
       (filter_r (\<lambda>c. and_then (py_get c (ascii ''severity''))
                        (\<lambda>v. Inr (v = PStr (ascii ''critical'')))) failed)
       (\<lambda>cs. Inr (length cs))"

text \<open>Lines 57 to 70 of \<^verbatim>\<open>check_health\<close> (``Determine overall status''), as a function of
  the result record built so far.\<close>

definition determine_status :: "pyval \<Rightarrow> pyerror + (int \<times> pyval)" where
  "determine_status result =
     and_then (failed_checks result) (\<lambda>failed.
     and_then (warning_count failed) (\<lambda>warnings.
     and_then (critical_count failed) (\<lambda>criticals.
       if criticals > 0 then
         and_then (setitem result (ascii ''status'') (PStr (ascii ''CRITICAL'')))
           (\<lambda>result. Inr (2, result))
       else if warnings > 0 then
         and_then (setitem result (ascii ''status'') (PStr (ascii ''WARNING'')))
           (\<lambda>result. Inr (1, result))
       else
         and_then (setitem result (ascii ''status'') (PStr (ascii ''OK'')))
           (\<lambda>result. Inr (0, result)))))"

text \<open>Lines 25 to 29: the result record, with the time stamp line 26 obtained.\<close>

definition initial_result :: "pystr \<Rightarrow> pyval" where
  "initial_result now =
     PDict [(ascii ''timestamp'', PStr now),
            (ascii ''status'', PStr (ascii ''OK'')),
            (ascii ''checks'', PList [])]"

text \<open>
  Lines 15 to 70: a run of \<^verbatim>\<open>check_health\<close>. Its value is the effects of the call, in
  order, and what the call returns. Only lines 26 and 32 reach outside the process;
  everything else works on the dictionary and the lists the function has built. The
  argument \<open>verbose\<close> is accepted and never read, as in the source.
\<close>

definition check_health_run :: "world \<Rightarrow> bool \<Rightarrow> effect list \<times> (pyerror + (int \<times> pyval))" where
  "check_health_run w verbose =
     (let now = utcnow_call w;
          result = initial_result (snd now);
          check_mode = environ_get_call w (ascii ''CHECK_MODE'') (ascii ''default'')
      in (fst now @ fst check_mode,
          and_then (checks_append result
            (PDict [(ascii ''name'', PStr (ascii ''Environment'')),
                    (ascii ''value'', PStr (snd check_mode)),
                    (ascii ''ok'', PBool True)])) (\<lambda>result.
          let cpu_ok = True
          in and_then (checks_append result
            (PDict [(ascii ''name'', PStr (ascii ''CPU Usage'')),
                    (ascii ''value'', PStr (ascii ''Normal'')),
                    (ascii ''ok'', PBool cpu_ok)])) (\<lambda>result.
          let api_ok = True
          in and_then (checks_append result
            (PDict [(ascii ''name'', PStr (ascii ''External API'')),
                    (ascii ''value'', PStr (ascii ''Reachable'')),
                    (ascii ''ok'', PBool api_ok)])) (\<lambda>result.
          determine_status result)))))"

text \<open>What the call returns: the pair \<^verbatim>\<open>(exit_code, result)\<close>, or the exception.\<close>

definition check_health :: "world \<Rightarrow> bool \<Rightarrow> pyerror + (int \<times> pyval)" where
  "check_health w verbose = snd (check_health_run w verbose)"


section \<open>json.dumps\<close>

text \<open>
  The standard library's \<^verbatim>\<open>json.dumps(obj, indent=...)\<close> with its defaults
  (\<^verbatim>\<open>ensure_ascii=True\<close>, \<^verbatim>\<open>sort_keys=False\<close>), on the values above.

  \<open>hex4 n\<close> is \<^verbatim>\<open>'{0:04x}'.format(n)\<close> for \<open>n < 0x10000\<close>, the only arguments the
  encoder passes.
\<close>

definition hex_digit :: "nat \<Rightarrow> nat" where
  "hex_digit d = (if d < 10 then 48 + d else 87 + d)"

definition hex4 :: "nat \<Rightarrow> pystr" where
  "hex4 n = [hex_digit (n div 4096 mod 16), hex_digit (n div 256 mod 16),
             hex_digit (n div 16 mod 16), hex_digit (n mod 16)]"

text \<open>
  One character of \<^verbatim>\<open>encode_basestring_ascii\<close>: backslash and double quote get a
  backslash, the other characters from space to tilde stay, the five control characters
  with a short escape get it, every other code point below \<open>0x10000\<close> becomes
  \<^verbatim>\<open>\uXXXX\<close>, and a code point from \<open>0x10000\<close> on becomes a surrogate pair
  (\<^verbatim>\<open>0xd800 | ((n >> 10) & 0x3ff)\<close> and \<^verbatim>\<open>0xdc00 | (n & 0x3ff)\<close> for
  \<^verbatim>\<open>n = c - 0x10000\<close>, written here with \<open>div\<close> and \<open>mod\<close>).
\<close>

definition escape_char :: "nat \<Rightarrow> pystr" where
  "escape_char c =
     (if c = 92 then [92, 92]
      else if c = 34 then [92, 34]
      else if 32 \<le> c \<and> c \<le> 126 then [c]
      else if c = 8 then [92, 98]
      else if c = 12 then [92, 102]
      else if c = 10 then [92, 110]
      else if c = 13 then [92, 114]
      else if c = 9 then [92, 116]
      else if c < 65536 then [92, 117] @ hex4 c
      else let n = c - 65536
           in [92, 117] @ hex4 (55296 + n div 1024 mod 1024)
              @ [92, 117] @ hex4 (56320 + n mod 1024))"

definition encode_basestring_ascii :: "pystr \<Rightarrow> pystr" where
  "encode_basestring_ascii s = [34] @ concat (map escape_char s) @ [34]"

text \<open>\<^verbatim>\<open>sep.join(parts)\<close>\<close>

fun join :: "pystr \<Rightarrow> pystr list \<Rightarrow> pystr" where
  "join sep [] = []"
| "join sep [x] = x"
| "join sep (x # y # ys) = x @ sep @ join sep (y # ys)"

text \<open>\<^verbatim>\<open>'\n' + ' ' * (indent * level)\<close>\<close>

definition newline_indent :: "nat \<Rightarrow> nat \<Rightarrow> pystr" where
  "newline_indent n lvl = 10 # replicate (n * lvl) 32"

text \<open>
  The encoder proper. Without \<open>indent\<close> the separators are \<^verbatim>\<open>', '\<close> and \<^verbatim>\<open>': '\<close>
  and nothing else is inserted; with \<open>indent = n\<close> they are \<^verbatim>\<open>','\<close> and \<^verbatim>\<open>': '\<close>,
  every item of a non-empty container starts a new line indented by \<open>n\<close> spaces per
  nesting level, and the closing bracket starts a new line at the container's own level.
\<close>

fun json_encode :: "nat option \<Rightarrow> nat \<Rightarrow> pyval \<Rightarrow> pystr" where
  "json_encode ind lvl PNone = ascii ''null''"
| "json_encode ind lvl (PBool b) = ascii (if b then ''true'' else ''false'')"
| "json_encode ind lvl (PStr s) = encode_basestring_ascii s"
| "json_encode ind lvl (PList xs) =
     (if xs = [] then ascii ''[]''
      else case ind of
        None \<Rightarrow> [91] @ join (ascii '', '') (map (json_encode ind lvl) xs) @ [93]
      | Some n \<Rightarrow>
          [91] @ newline_indent n (Suc lvl)
          @ join (44 # newline_indent n (Suc lvl)) (map (json_encode ind (Suc lvl)) xs)
          @ newline_indent n lvl @ [93])"
| "json_encode ind lvl (PDict kvs) =
     (if kvs = [] then ascii ''{}''
      else case ind of
        None \<Rightarrow>
          [123] @ join (ascii '', '')
                   (map (\<lambda>kv. encode_basestring_ascii (fst kv) @ ascii '': ''
                              @ json_encode ind lvl (snd kv)) kvs)
          @ [125]
      | Some n \<Rightarrow>
          [123] @ newline_indent n (Suc lvl)
          @ join (44 # newline_indent n (Suc lvl))
              (map (\<lambda>kv. encode_basestring_ascii (fst kv) @ ascii '': ''
                         @ json_encode ind (Suc lvl) (snd kv)) kvs)
          @ newline_indent n lvl @ [125])"

definition json_dumps :: "nat option \<Rightarrow> pyval \<Rightarrow> pystr" where
  "json_dumps ind obj = json_encode ind 0 obj"


section \<open>json.loads\<close>

text \<open>
  The standard library's \<^verbatim>\<open>json.loads\<close> with its defaults (\<^verbatim>\<open>strict=True\<close>), on
  texts without number literals: white space is space, tab, line feed and carriage
  return.
\<close>

definition is_ws :: "nat \<Rightarrow> bool" where
  "is_ws c = (c = 32 \<or> c = 9 \<or> c = 10 \<or> c = 13)"

definition skip_ws :: "pystr \<Rightarrow> pystr" where
  "skip_ws s = dropWhile is_ws s"

text \<open>The four hexadecimal digits of a \<^verbatim>\<open>\uXXXX\<close> escape, in either case.\<close>

definition hex_val :: "nat \<Rightarrow> nat option" where
  "hex_val c =
     (if 48 \<le> c \<and> c \<le> 57 then Some (c - 48)
      else if 97 \<le> c \<and> c \<le> 102 then Some (c - 87)
      else if 65 \<le> c \<and> c \<le> 70 then Some (c - 55)
      else None)"

definition hex4_val :: "nat \<Rightarrow> nat \<Rightarrow> nat \<Rightarrow> nat \<Rightarrow> nat option" where
  "hex4_val a b c d =
     (case (hex_val a, hex_val b, hex_val c, hex_val d) of
        (Some x, Some y, Some z, Some t) \<Rightarrow> Some (((x * 16 + y) * 16 + z) * 16 + t)
      | _ \<Rightarrow> None)"

definition decode_uXXXX :: "pystr \<Rightarrow> nat option" where
  "decode_uXXXX s =
     (if length s < 4 then None else hex4_val (s ! 0) (s ! 1) (s ! 2) (s ! 3))"

text \<open>The one-letter escapes (\<^verbatim>\<open>BACKSLASH\<close> in \<^verbatim>\<open>json.decoder\<close>).\<close>

definition unescape :: "nat \<Rightarrow> nat option" where
  "unescape e =
     (if e = 34 then Some 34
      else if e = 92 then Some 92
      else if e = 47 then Some 47
      else if e = 98 then Some 8
      else if e = 102 then Some 12
      else if e = 110 then Some 10
      else if e = 114 then Some 13
      else if e = 116 then Some 9
      else None)"

text \<open>
  \<^verbatim>\<open>scanstring\<close>, called behind the opening quote: it returns the string and the rest
  of the text behind the closing quote. An escaped high surrogate that an escaped low
  surrogate follows is joined with it into one code point; a control character below
  \<open>0x20\<close> is refused.
\<close>

definition emit :: "nat \<Rightarrow> pyerror + (pystr \<times> pystr) \<Rightarrow> pyerror + (pystr \<times> pystr)" where
  "emit c r = and_then r (\<lambda>p. Inr (c # fst p, snd p))"

function scanstring :: "pystr \<Rightarrow> pyerror + (pystr \<times> pystr)" where
  "scanstring [] = Inl JSONDecodeError"
| "scanstring (c # cs) =
     (if c = 34 then Inr ([], cs)
      else if c = 92 then
        (case cs of
           [] \<Rightarrow> Inl JSONDecodeError
         | e # es \<Rightarrow>
             if e = 117 then
               (case decode_uXXXX es of
                  None \<Rightarrow> Inl JSONDecodeError
                | Some uni \<Rightarrow>
                    if 55296 \<le> uni \<and> uni \<le> 56319 \<and> take 2 (drop 4 es) = [92, 117] then
                      (case decode_uXXXX (drop 6 es) of
                         None \<Rightarrow> Inl JSONDecodeError
                       | Some uni2 \<Rightarrow>
                           if 56320 \<le> uni2 \<and> uni2 \<le> 57343 then
                             emit (65536 + ((uni - 55296) * 1024 + (uni2 - 56320)))
                               (scanstring (drop 10 es))
                           else emit uni (scanstring (drop 4 es)))
                    else emit uni (scanstring (drop 4 es)))
             else
               (case unescape e of
                  None \<Rightarrow> Inl JSONDecodeError
                | Some ch \<Rightarrow> emit ch (scanstring es)))
      else if c < 32 then Inl JSONDecodeError
      else emit c (scanstring cs))"
  by pat_completeness simp_all
termination
  apply (relation "measure length")
  apply simp_all
  done

text \<open>\<^verbatim>\<open>dict(pairs)\<close>: a repeated key keeps its first place and takes its last value.\<close>

definition dict_of_pairs :: "(pystr \<times> pyval) list \<Rightarrow> (pystr \<times> pyval) list" where
  "dict_of_pairs ps = foldl (\<lambda>d kv. AList.update (fst kv) (snd kv) d) [] ps"

text \<open>
  The scanner (\<^verbatim>\<open>scan_once\<close>, \<^verbatim>\<open>JSONArray\<close>, \<^verbatim>\<open>JSONObject\<close>). The first
  argument bounds the number of nested calls; \<open>json_loads\<close> passes the length of the
  text, which no nesting exceeds. \<open>parse_array\<close> starts at the first item of a
  non-empty array, \<open>parse_object\<close> at the quote that opens a key. A value that
  starts like a number is \<open>NotModelled\<close>.
\<close>

fun parse_value :: "nat \<Rightarrow> pystr \<Rightarrow> pyerror + (pyval \<times> pystr)"
and parse_array :: "nat \<Rightarrow> pystr \<Rightarrow> pyerror + (pyval list \<times> pystr)"
and parse_object :: "nat \<Rightarrow> pystr \<Rightarrow> pyerror + ((pystr \<times> pyval) list \<times> pystr)"
where
  "parse_value 0 s = Inl JSONDecodeError"
| "parse_value (Suc n) s =
     (case s of
        [] \<Rightarrow> Inl JSONDecodeError
      | c # cs \<Rightarrow>
          if c = 34 then
            and_then (scanstring cs) (\<lambda>r. Inr (PStr (fst r), snd r))
          else if c = 123 then
            (if take 1 (skip_ws cs) = [125] then Inr (PDict [], drop 1 (skip_ws cs))
             else and_then (parse_object n (skip_ws cs))
                    (\<lambda>r. Inr (PDict (dict_of_pairs (fst r)), snd r)))
          else if c = 91 then
            (if take 1 (skip_ws cs) = [93] then Inr (PList [], drop 1 (skip_ws cs))
             else and_then (parse_array n (skip_ws cs)) (\<lambda>r. Inr (PList (fst r), snd r)))
          else if take 4 s = ascii ''null'' then Inr (PNone, drop 4 s)
          else if take 4 s = ascii ''true'' then Inr (PBool True, drop 4 s)
          else if take 5 s = ascii ''false'' then Inr (PBool False, drop 5 s)
          else if c = 45 \<or> (48 \<le> c \<and> c \<le> 57) \<or> take 3 s = ascii ''NaN''
                  \<or> take 8 s = ascii ''Infinity'' then Inl NotModelled
          else Inl JSONDecodeError)"
| "parse_array 0 s = Inl JSONDecodeError"
| "parse_array (Suc n) s =
     and_then (parse_value (Suc n) s) (\<lambda>r.
       let v = fst r; s1 = skip_ws (snd r)
       in if take 1 s1 = [93] then Inr ([v], drop 1 s1)
          else if take 1 s1 = [44] then
            and_then (parse_array n (skip_ws (drop 1 s1))) (\<lambda>r2. Inr (v # fst r2, snd r2))
          else Inl JSONDecodeError)"
| "parse_object 0 s = Inl JSONDecodeError"
| "parse_object (Suc n) s =
     (if take 1 s \<noteq> [34] then Inl JSONDecodeError
      else
        and_then (scanstring (drop 1 s)) (\<lambda>k.
          let key = fst k; s1 = skip_ws (snd k)
          in if take 1 s1 \<noteq> [58] then Inl JSONDecodeError
             else
               and_then (parse_value (Suc n) (skip_ws (drop 1 s1))) (\<lambda>r.
                 let v = fst r; s2 = skip_ws (snd r)
                 in if take 1 s2 = [125] then Inr ([(key, v)], drop 1 s2)
                    else if take 1 s2 = [44] then
                      and_then (parse_object n (skip_ws (drop 1 s2)))
                        (\<lambda>r2. Inr ((key, v) # fst r2, snd r2))
                    else Inl JSONDecodeError)))"

text \<open>\<^verbatim>\<open>json.loads(s)\<close>: white space around the value is skipped, anything else behind
  it is an error, and so is a byte order mark in front.\<close>

definition json_loads :: "pystr \<Rightarrow> pyerror + pyval" where
  "json_loads s =
     (if take 1 s = [65279] then Inl JSONDecodeError
      else and_then (parse_value (length s) (skip_ws s)) (\<lambda>r.
             if skip_ws (snd r) = [] then Inr (fst r) else Inl JSONDecodeError))"


section \<open>main\<close>

text \<open>
  \<open>args\<close> is the namespace \<^verbatim>\<open>parser.parse_args()\<close> returns: two \<^verbatim>\<open>store_true\<close>
  flags.

  Standard output is a text stream with the default error handler \<^verbatim>\<open>strict\<close>.
  \<^verbatim>\<open>print(s)\<close> encodes \<open>s\<close> as a whole before any of it is written: when the stream's
  encoding has every code point of \<open>s\<close>, the text and a line feed are appended; when
  it lacks one, nothing is appended and UnicodeEncodeError is raised. The ASCII
  characters are taken to be in every encoding a standard stream can have.
\<close>

record args =
  args_verbose :: bool
  args_json :: bool

definition encodable :: "world \<Rightarrow> pystr \<Rightarrow> bool" where
  "encodable w s = list_all (\<lambda>c. c < 128 \<or> stdout_encodes w c) s"

text \<open>An exception of the script goes with the text that standard output has received
  before it: \<open>raised out\<close> attaches that text to the exception of a step that prints
  nothing.\<close>

definition print_line :: "world \<Rightarrow> pystr \<Rightarrow> pystr \<Rightarrow> (pyerror \<times> pystr) + pystr" where
  "print_line w out s =
     (if encodable w s then Inr (out @ s @ [10]) else Inl (UnicodeEncodeError, out))"

definition raised :: "pystr \<Rightarrow> pyerror + 'a \<Rightarrow> (pyerror \<times> pystr) + 'a" where
  "raised out m = (case m of Inl e \<Rightarrow> Inl (e, out) | Inr x \<Rightarrow> Inr x)"

text \<open>Lines 85 to 87: the loop over \<^verbatim>\<open>result["checks"]\<close>. The two glyphs are U+2713 and
  U+2717.\<close>

fun print_checks :: "world \<Rightarrow> pystr \<Rightarrow> pyval list \<Rightarrow> (pyerror \<times> pystr) + pystr" where
  "print_checks w out [] = Inr out"
| "print_checks w out (check # rest) =
     and_then (raised out (subscript check (ascii ''ok''))) (\<lambda>ok.
     let status = (if truthy ok then [10003] else [10007])
     in and_then (raised out (subscript check (ascii ''name''))) (\<lambda>n.
        and_then (raised out (py_format n)) (\<lambda>name.
        and_then (raised out (subscript check (ascii ''value''))) (\<lambda>v.
        and_then (raised out (py_format v)) (\<lambda>val.
        and_then
          (print_line w out (ascii ''  '' @ status @ ascii '' '' @ name @ ascii '': '' @ val))
          (\<lambda>out. print_checks w out rest))))))"

text \<open>
  Lines 81 to 89: the rendering of a result and the exit. When the lines run to
  \<^verbatim>\<open>sys.exit(exit_code)\<close> the value is the text written to standard output and the exit
  status; when one of them raises, it is the exception and the text written before it.
\<close>

definition report :: "world \<Rightarrow> args \<Rightarrow> int \<Rightarrow> pyval \<Rightarrow> (pyerror \<times> pystr) + (pystr \<times> int)" where
  "report w a exit_code result =
     and_then
       (if args_json a then
          print_line w [] (json_dumps (if args_verbose a then Some 2 else None) result)
        else
          and_then (raised [] (subscript result (ascii ''status''))) (\<lambda>s.
          and_then (raised [] (py_format s)) (\<lambda>status.
          and_then (print_line w [] (ascii ''Status: '' @ status)) (\<lambda>out.
          and_then (raised out (subscript result (ascii ''checks''))) (\<lambda>cs.
          and_then (raised out (py_iter cs)) (\<lambda>items.
          print_checks w out items))))))
       (\<lambda>out. Inr (out, exit_code))"

definition main :: "world \<Rightarrow> args \<Rightarrow> (pyerror \<times> pystr) + (pystr \<times> int)" where
  "main w a =
     and_then (raised [] (check_health w (args_verbose a))) (\<lambda>r. report w a (fst r) (snd r))"




section \<open>Check entries\<close>

text \<open>
  A CheckEntry is a dictionary whose \<^verbatim>\<open>name\<close> and \<^verbatim>\<open>value\<close> are strings and whose
  \<^verbatim>\<open>ok\<close> is a boolean; it may hold more keys, \<^verbatim>\<open>severity\<close> among them, with any
  value.
\<close>

definition has_str :: "pyval \<Rightarrow> pystr \<Rightarrow> bool" where
  "has_str c k = (case subscript c k of Inr (PStr s) \<Rightarrow> True | _ \<Rightarrow> False)"

definition has_bool :: "pyval \<Rightarrow> pystr \<Rightarrow> bool" where
  "has_bool c k = (case subscript c k of Inr (PBool b) \<Rightarrow> True | _ \<Rightarrow> False)"

definition is_check_entry :: "pyval \<Rightarrow> bool" where
  "is_check_entry c =
     (has_str c (ascii ''name'') \<and> has_str c (ascii ''value'') \<and> has_bool c (ascii ''ok''))"

text \<open>A check has failed when its \<^verbatim>\<open>ok\<close> is \<^verbatim>\<open>False\<close>; it is critical when its
  \<^verbatim>\<open>severity\<close> is the string \<^verbatim>\<open>"critical"\<close>.\<close>

definition check_failed :: "pyval \<Rightarrow> bool" where
  "check_failed c = (subscript c (ascii ''ok'') = Inr (PBool False))"

definition is_critical :: "pyval \<Rightarrow> bool" where
  "is_critical c = (py_get c (ascii ''severity'') = Inr (PStr (ascii ''critical'')))"




text \<open>The lines of a text: a line feed ends a line.\<close>

fun split_lines :: "pystr \<Rightarrow> pystr list" where
  "split_lines [] = []"
| "split_lines (c # cs) =
     (if c = 10 then [] # split_lines cs
      else case split_lines cs of [] \<Rightarrow> [[c]] | l # ls \<Rightarrow> (c # l) # ls)"


section \<open>Sample inputs\<close>

text \<open>Two failed checks, the second one critical, in a result record as line 57 finds it
  and as line 64 returns it; a world where CHECK\_MODE is \<^verbatim>\<open>foo\<close>, one where it is unset,
  and one where it holds a line feed, each with a UTF-8 standard output and an
  interpreter that does not warn.\<close>

definition sample_checks :: "pyval list" where
  "sample_checks =
     [PDict [(ascii ''name'', PStr (ascii ''disk'')), (ascii ''value'', PStr (ascii ''low'')),
             (ascii ''ok'', PBool False)],
      PDict [(ascii ''name'', PStr (ascii ''db'')), (ascii ''value'', PStr (ascii ''down'')),
             (ascii ''ok'', PBool False), (ascii ''severity'', PStr (ascii ''critical''))]]"

definition sample_result :: pyval where
  "sample_result =
     PDict [(ascii ''timestamp'', PStr (ascii ''2024-05-01T12:00:00'')),
            (ascii ''status'', PStr (ascii ''OK'')),
            (ascii ''checks'', PList sample_checks)]"


text \<open>The code points a strict UTF-8 stream encodes beyond ASCII: all but the
  surrogates.\<close>

definition utf8_encodes :: "nat \<Rightarrow> bool" where
  "utf8_encodes c = (c < 55296 \<or> 57343 < c)"

definition foo_world :: world where
  "foo_world = \<lparr>environ = [ascii ''CHECK_MODE'' \<mapsto> ascii ''foo''],
                 utcnow_isoformat = ascii ''2024-05-01T12:00:00'',
                 utcnow_warning = None,
                 stdout_encodes = utf8_encodes\<rparr>"

definition unset_world :: world where
  "unset_world = \<lparr>environ = [ascii ''PATH'' \<mapsto> ascii ''/usr/bin''],
                   utcnow_isoformat = ascii ''2024-05-01T12:00:00'',
                   utcnow_warning = None,
                   stdout_encodes = utf8_encodes\<rparr>"

definition linefeed_world :: world where
  "linefeed_world = \<lparr>environ = [ascii ''CHECK_MODE'' \<mapsto> [97, 10, 98]],
                      utcnow_isoformat = ascii ''2024-05-01T12:00:00'',
                      utcnow_warning = None,
                      stdout_encodes = utf8_encodes\<rparr>"






section \<open>The JSON texts of the result\<close>

text \<open>The two JSON texts of the result of \<open>check_health\<close>, written out: the lines of
  the indented one and the single line of the other. The time stamp and the value of
  CHECK\_MODE stand in them as \<^verbatim>\<open>encode_basestring_ascii\<close> writes them.\<close>

definition indented_lines :: "world \<Rightarrow> pystr list" where
  "indented_lines w =
     [ascii ''{'',
      ascii ''  \"timestamp\": '' @ encode_basestring_ascii (utcnow_isoformat w) @ ascii '','',
      ascii ''  \"status\": \"OK\",'',
      ascii ''  \"checks\": ['',
      ascii ''    {'',
      ascii ''      \"name\": \"Environment\",'',
      ascii ''      \"value\": ''
        @ encode_basestring_ascii (environ_get w (ascii ''CHECK_MODE'') (ascii ''default''))
        @ ascii '','',
      ascii ''      \"ok\": true'',
      ascii ''    },'',
      ascii ''    {'',
      ascii ''      \"name\": \"CPU Usage\",'',
      ascii ''      \"value\": \"Normal\",'',
      ascii ''      \"ok\": true'',
      ascii ''    },'',
      ascii ''    {'',
      ascii ''      \"name\": \"External API\",'',
      ascii ''      \"value\": \"Reachable\",'',
      ascii ''      \"ok\": true'',
      ascii ''    }'',
      ascii ''  ]'',
      ascii ''}'']"

definition compact_line :: "world \<Rightarrow> pystr" where
  "compact_line w =
     ascii ''{\"timestamp\": '' @ encode_basestring_ascii (utcnow_isoformat w)
     @ ascii '', \"status\": \"OK\", \"checks\": [{\"name\": \"Environment\", \"value\": ''
     @ encode_basestring_ascii (environ_get w (ascii ''CHECK_MODE'') (ascii ''default''))
     @ ascii '', \"ok\": true}, {\"name\": \"CPU Usage\", \"value\": \"Normal\", \"ok\": true}, ''
     @ ascii ''{\"name\": \"External API\", \"value\": \"Reachable\", \"ok\": true}]}''"



section \<open>Loading what was dumped\<close>

text \<open>
  A Python string holds code points below \<open>0x110000\<close>. \<open>merge_surrogates\<close> is what
  \<^verbatim>\<open>json.loads\<close> makes of the escapes \<^verbatim>\<open>json.dumps\<close> wrote for a string: a high surrogate
  and the low surrogate behind it become the code point of the pair, everything else is
  kept.
\<close>

definition valid_str :: "pystr \<Rightarrow> bool" where
  "valid_str s = list_all (\<lambda>c. c < 1114112) s"

fun merge_surrogates :: "pystr \<Rightarrow> pystr" where
  "merge_surrogates (c # d # cs) =
     (if 55296 \<le> c \<and> c \<le> 56319 \<and> 56320 \<le> d \<and> d \<le> 57343 then
        (65536 + ((c - 55296) * 1024 + (d - 56320))) # merge_surrogates cs
      else c # merge_surrogates (d # cs))"
| "merge_surrogates [c] = [c]"
| "merge_surrogates [] = []"


text \<open>A value all of whose strings and keys are Python strings, and the value
  \<^verbatim>\<open>json.loads(json.dumps(v))\<close>.\<close>

fun valid_val :: "pyval \<Rightarrow> bool" where
  "valid_val (PStr s) = valid_str s"
| "valid_val (PList xs) = list_all valid_val xs"
| "valid_val (PDict kvs) = list_all (\<lambda>kv. valid_str (fst kv) \<and> valid_val (snd kv)) kvs"
| "valid_val _ = True"

fun reloaded :: "pyval \<Rightarrow> pyval" where
  "reloaded (PStr s) = PStr (merge_surrogates s)"
| "reloaded (PList xs) = PList (map reloaded xs)"
| "reloaded (PDict kvs) =
     PDict (dict_of_pairs (map (\<lambda>kv. (merge_surrogates (fst kv), reloaded (snd kv))) kvs))"
| "reloaded v = v"

text \<open>A world whose clock reading and CHECK\_MODE are Python strings.\<close>

definition valid_world :: "world \<Rightarrow> bool" where
  "valid_world w =
     (valid_str (utcnow_isoformat w)
      \<and> valid_str (environ_get w (ascii ''CHECK_MODE'') (ascii ''default'')))"

text \<open>The first character of an encoded value: \<^verbatim>\<open>n\<close>, \<^verbatim>\<open>t\<close>, \<^verbatim>\<open>f\<close>, a double quote or
  an opening bracket.\<close>

definition value_start :: "nat \<Rightarrow> bool" where
  "value_start c = (c = 110 \<or> c = 116 \<or> c = 102 \<or> c = 34 \<or> c = 91 \<or> c = 123)"


section \<open>Evaluation lemmas\<close>

subsection \<open>Strings and results\<close>

lemma ascii_eq_iff [simp]: "ascii s = ascii t \<longleftrightarrow> s = t"
  unfolding ascii_def by (simp add: inj_map_eq_map inj_on_def)

lemma and_then_Inr [simp]: "and_then (Inr x) f = f x"
  by (simp add: and_then_def)

lemma and_then_Inl [simp]: "and_then (Inl e) f = Inl e"
  by (simp add: and_then_def)

subsection \<open>The status of a list of check entries\<close>

lemma filter_r_total:
  "(\<And>x. x \<in> set xs \<Longrightarrow> p x = Inr (q x)) \<Longrightarrow> filter_r p xs = Inr (filter q xs)"
  by (induction xs) simp_all

lemma check_entry_ok:
  assumes "is_check_entry c"
  shows "and_then (subscript c (ascii ''ok'')) (\<lambda>v. Inr (\<not> truthy v)) = Inr (check_failed c)"
proof -
  from assms obtain b where "subscript c (ascii ''ok'') = Inr (PBool b)"
    by (auto simp: is_check_entry_def has_bool_def split: sum.splits pyval.splits)
  then show ?thesis by (simp add: check_failed_def)
qed

lemma check_entry_severity:
  assumes "is_check_entry c"
  shows "and_then (py_get c (ascii ''severity'')) (\<lambda>v. Inr (v = PStr (ascii ''critical'')))
           = Inr (is_critical c)"
    and "and_then (py_get c (ascii ''severity'')) (\<lambda>v. Inr (v \<noteq> PStr (ascii ''critical'')))
           = Inr (\<not> is_critical c)"
proof -
  from assms obtain d where c: "c = PDict d"
    by (cases c) (simp_all add: is_check_entry_def has_bool_def)
  then show "and_then (py_get c (ascii ''severity'')) (\<lambda>v. Inr (v = PStr (ascii ''critical'')))
           = Inr (is_critical c)"
    and "and_then (py_get c (ascii ''severity'')) (\<lambda>v. Inr (v \<noteq> PStr (ascii ''critical'')))
           = Inr (\<not> is_critical c)"
    by (simp_all add: is_critical_def split: option.splits)
qed

lemma failed_checks_entries:
  assumes "subscript result (ascii ''checks'') = Inr (PList cs)" and "list_all is_check_entry cs"
  shows "failed_checks result = Inr (filter check_failed cs)"
  using assms
  by (simp add: failed_checks_def list_all_iff filter_r_total [where q = check_failed] check_entry_ok)

lemma warning_count_entries:
  assumes "list_all is_check_entry fs"
  shows "warning_count fs = Inr (length (filter (\<lambda>c. \<not> is_critical c) fs))"
  using assms
  by (simp add: warning_count_def list_all_iff
        filter_r_total [where q = "\<lambda>c. \<not> is_critical c"] check_entry_severity)

lemma critical_count_entries:
  assumes "list_all is_check_entry fs"
  shows "critical_count fs = Inr (length (filter is_critical fs))"
  using assms
  by (simp add: critical_count_def list_all_iff
        filter_r_total [where q = is_critical] check_entry_severity)

lemma determine_status_entries:
  assumes "subscript result (ascii ''checks'') = Inr (PList cs)" and "list_all is_check_entry cs"
  shows "determine_status result =
     (if list_ex (\<lambda>c. check_failed c \<and> is_critical c) cs then
        and_then (setitem result (ascii ''status'') (PStr (ascii ''CRITICAL''))) (\<lambda>r. Inr (2, r))
      else if list_ex check_failed cs then
        and_then (setitem result (ascii ''status'') (PStr (ascii ''WARNING''))) (\<lambda>r. Inr (1, r))
      else
        and_then (setitem result (ascii ''status'') (PStr (ascii ''OK''))) (\<lambda>r. Inr (0, r)))"
proof -
  have fs: "list_all is_check_entry (filter check_failed cs)"
    using assms(2) by (simp add: list_all_iff)
  have a: "filter is_critical (filter check_failed cs) \<noteq> [] \<longleftrightarrow>
        list_ex (\<lambda>c. check_failed c \<and> is_critical c) cs"
    by (auto simp: list_ex_iff filter_empty_conv)
  have b: "\<not> list_ex (\<lambda>c. check_failed c \<and> is_critical c) cs \<Longrightarrow>
        filter (\<lambda>c. \<not> is_critical c) (filter check_failed cs) \<noteq> [] \<longleftrightarrow> list_ex check_failed cs"
    by (auto simp: list_ex_iff filter_empty_conv)
  show ?thesis
    using a b
    by (simp add: determine_status_def failed_checks_entries [OF assms]
          warning_count_entries [OF fs] critical_count_entries [OF fs])
qed

lemma setitem_status:
  assumes "subscript result (ascii ''checks'') = Inr (PList cs)"
  shows "\<exists>d. result = PDict d \<and> setitem result (ascii ''status'') v = Inr (PDict (AList.update (ascii ''status'') v d))"
  using assms by (cases result) simp_all


lemma subscript_update_other: "k' \<noteq> k \<Longrightarrow> subscript (PDict (AList.update k v d)) k' = subscript (PDict d) k'"
  by (simp add: update_conv')

lemma determine_status_value:
  assumes "subscript result (ascii ''checks'') = Inr (PList cs)" and "list_all is_check_entry cs"
  shows "\<exists>d. result = PDict d \<and>
     determine_status result =
       Inr (if list_ex (\<lambda>c. check_failed c \<and> is_critical c) cs then 2
            else if list_ex check_failed cs then 1 else 0,
            PDict (AList.update (ascii ''status'')
              (PStr (if list_ex (\<lambda>c. check_failed c \<and> is_critical c) cs then ascii ''CRITICAL''
                     else if list_ex check_failed cs then ascii ''WARNING'' else ascii ''OK'')) d))"
proof -
  from assms(1) obtain d where d: "result = PDict d" by (cases result) simp_all
  show ?thesis
    unfolding determine_status_entries [OF assms] by (simp add: d)
qed

subsection \<open>The characters of a JSON text\<close>

lemma hex_digit_printable: "d < 16 \<Longrightarrow> 32 \<le> hex_digit d \<and> hex_digit d \<le> 126"
  by (simp add: hex_digit_def)

lemma hex4_printable: "c \<in> set (hex4 n) \<Longrightarrow> 32 \<le> c \<and> c \<le> 126"
  by (auto simp: hex4_def intro: hex_digit_printable [THEN conjunct1] hex_digit_printable [THEN conjunct2])

lemma escape_char_printable: "x \<in> set (escape_char c) \<Longrightarrow> 32 \<le> x \<and> x \<le> 126"
  by (auto simp: escape_char_def Let_def dest: hex4_printable split: if_splits)

lemma encode_basestring_ascii_printable:
  "x \<in> set (encode_basestring_ascii s) \<Longrightarrow> 32 \<le> x \<and> x \<le> 126"
  by (auto simp: encode_basestring_ascii_def dest: escape_char_printable)

lemma set_join: "x \<in> set (join sep xs) \<Longrightarrow> x \<in> set sep \<or> (\<exists>y\<in>set xs. x \<in> set y)"
  by (induction sep xs rule: join.induct) auto

lemma json_encode_compact_printable:
  "x \<in> set (json_encode None lvl v) \<Longrightarrow> 32 \<le> x \<and> x \<le> 126"
proof (induction v arbitrary: x)
  case PNone
  then show ?case by (auto simp: ascii_def)
next
  case (PBool b)
  then show ?case by (cases b) (auto simp: ascii_def)
next
  case (PStr s)
  then show ?case by (simp add: encode_basestring_ascii_printable)
next
  case (PList xs)
  show ?case
  proof (cases "xs = []")
    case True
    with PList.prems show ?thesis by (auto simp: ascii_def)
  next
    case False
    with PList.prems have "x = 91 \<or> x = 93 \<or> x \<in> set (join (ascii '', '') (map (json_encode None lvl) xs))"
      by auto
    then show ?thesis
    proof (elim disjE)
      assume "x \<in> set (join (ascii '', '') (map (json_encode None lvl) xs))"
      from set_join [OF this] show ?thesis
        using PList.IH by (auto simp: ascii_def)
    qed simp_all
  qed
next
  case (PDict kvs)
  show ?case
  proof (cases "kvs = []")
    case True
    with PDict.prems show ?thesis by (auto simp: ascii_def)
  next
    case False
    let ?items = "map (\<lambda>kv. encode_basestring_ascii (fst kv) @ ascii '': ''
                              @ json_encode None lvl (snd kv)) kvs"
    from False PDict.prems have "x = 123 \<or> x = 125 \<or> x \<in> set (join (ascii '', '') ?items)"
      by auto
    then show ?thesis
    proof (elim disjE)
      assume "x \<in> set (join (ascii '', '') ?items)"
      from set_join [OF this] have "x \<in> set (ascii '', '') \<or> (\<exists>kv\<in>set kvs.
           x \<in> set (encode_basestring_ascii (fst kv)) \<or> x \<in> set (ascii '': '')
           \<or> x \<in> set (json_encode None lvl (snd kv)))"
        by auto
      then show ?thesis
      proof (elim disjE bexE)
        fix kv assume kv: "kv \<in> set kvs" and "x \<in> set (json_encode None lvl (snd kv))"
        moreover have "snd kv \<in> Basic_BNFs.snds kv" by (cases kv) simp
        ultimately show ?thesis
          using PDict.IH [of kv "snd kv" x] by blast
      qed (auto simp: ascii_def dest: encode_basestring_ascii_printable)
    qed simp_all
  qed
qed

lemma json_dumps_compact_no_lf: "10 \<notin> set (json_dumps None obj)"
  using json_encode_compact_printable [of 10 0 obj] by (auto simp: json_dumps_def)

lemma encode_basestring_ascii_no_lf: "10 \<notin> set (encode_basestring_ascii s)"
  using encode_basestring_ascii_printable [of 10 s] by auto

lemma newline_indent_set: "x \<in> set (newline_indent n lvl) \<Longrightarrow> x = 10 \<or> x = 32"
  by (auto simp: newline_indent_def)

lemma json_encode_ascii: "x \<in> set (json_encode ind lvl v) \<Longrightarrow> x < 128"
proof (induction v arbitrary: x lvl)
  case PNone
  then show ?case by (auto simp: ascii_def)
next
  case (PBool b)
  then show ?case by (cases b) (auto simp: ascii_def)
next
  case (PStr s)
  then show ?case using encode_basestring_ascii_printable [of x s] by simp
next
  case (PList xs)
  show ?case
  proof (cases "xs = []")
    case True
    with PList.prems show ?thesis by (auto simp: ascii_def)
  next
    case False
    define lvl' where "lvl' = (case ind of None \<Rightarrow> lvl | Some n \<Rightarrow> Suc lvl)"
    define w0 where "w0 = (case ind of None \<Rightarrow> [] | Some n \<Rightarrow> newline_indent n (Suc lvl))"
    define w1 where "w1 = (case ind of None \<Rightarrow> [32] | Some n \<Rightarrow> newline_indent n (Suc lvl))"
    define w2 where "w2 = (case ind of None \<Rightarrow> [] | Some n \<Rightarrow> newline_indent n lvl)"
    define js where "js = join (44 # w1) (map (json_encode ind lvl') xs)"
    have enc: "json_encode ind lvl (PList xs) = 91 # w0 @ js @ w2 @ [93]"
      using False
      by (cases ind) (simp_all add: lvl'_def w0_def w1_def w2_def js_def ascii_def)
    have ws: "y \<in> set w0 \<union> set w1 \<union> set w2 \<Longrightarrow> y < 128" for y
      by (cases ind) (auto simp: w0_def w1_def w2_def dest: newline_indent_set)
    have j: "x \<in> set js \<Longrightarrow> x < 128"
    proof -
      assume "x \<in> set js"
      from set_join [OF this [unfolded js_def]]
      show "x < 128" using ws [of x] PList.IH by auto
    qed
    from PList.prems have "x = 91 \<or> x = 93 \<or> x \<in> set w0 \<or> x \<in> set w2 \<or> x \<in> set js"
      unfolding enc by auto
    then show ?thesis using ws [of x] j by auto
  qed
next
  case (PDict kvs)
  show ?case
  proof (cases "kvs = []")
    case True
    with PDict.prems show ?thesis by (auto simp: ascii_def)
  next
    case False
    define lvl' where "lvl' = (case ind of None \<Rightarrow> lvl | Some n \<Rightarrow> Suc lvl)"
    define w0 where "w0 = (case ind of None \<Rightarrow> [] | Some n \<Rightarrow> newline_indent n (Suc lvl))"
    define w1 where "w1 = (case ind of None \<Rightarrow> [32] | Some n \<Rightarrow> newline_indent n (Suc lvl))"
    define w2 where "w2 = (case ind of None \<Rightarrow> [] | Some n \<Rightarrow> newline_indent n lvl)"
    define js where "js = join (44 # w1)
       (map (\<lambda>kv. encode_basestring_ascii (fst kv) @ ascii '': '' @ json_encode ind lvl' (snd kv)) kvs)"
    have enc: "json_encode ind lvl (PDict kvs) = 123 # w0 @ js @ w2 @ [125]"
      using False
      by (cases ind) (simp_all add: lvl'_def w0_def w1_def w2_def js_def ascii_def)
    have ws: "y \<in> set w0 \<union> set w1 \<union> set w2 \<Longrightarrow> y < 128" for y
      by (cases ind) (auto simp: w0_def w1_def w2_def dest: newline_indent_set)
    have sn: "snd kv \<in> Basic_BNFs.snds kv" for kv :: "pystr \<times> pyval"
      by (cases kv) simp
    have j: "x \<in> set js \<Longrightarrow> x < 128"
    proof -
      assume "x \<in> set js"
      from set_join [OF this [unfolded js_def]]
      have "x \<in> set (44 # w1) \<or> (\<exists>kv\<in>set kvs.
           x \<in> set (encode_basestring_ascii (fst kv)) \<or> x \<in> set (ascii '': '')
           \<or> x \<in> set (json_encode ind lvl' (snd kv)))"
        by auto
      then show "x < 128"
      proof (elim disjE bexE)
        fix kv assume "kv \<in> set kvs" and "x \<in> set (json_encode ind lvl' (snd kv))"
        then show ?thesis using PDict.IH [OF _ sn] by blast
      next
        fix kv assume "x \<in> set (encode_basestring_ascii (fst kv))"
        then show ?thesis using encode_basestring_ascii_printable [of x "fst kv"] by simp
      qed (use ws [of x] in \<open>auto simp: ascii_def\<close>)
    qed
    from PDict.prems have "x = 123 \<or> x = 125 \<or> x \<in> set w0 \<or> x \<in> set w2 \<or> x \<in> set js"
      unfolding enc by auto
    then show ?thesis using ws [of x] j by auto
  qed
qed

lemma encodable_ascii: "list_all (\<lambda>c. c < 128) s \<Longrightarrow> encodable w s"
  by (simp add: encodable_def list_all_iff)


lemma json_dumps_encodable: "encodable w (json_dumps ind obj)"
  by (rule encodable_ascii) (auto simp: list_all_iff json_dumps_def dest: json_encode_ascii)


subsection \<open>The result of check\_health and the printed text\<close>

lemma check_health_value:
  "check_health w verbose =
     Inr (0, PDict [(ascii ''timestamp'', PStr (utcnow_isoformat w)),
                    (ascii ''status'', PStr (ascii ''OK'')),
                    (ascii ''checks'', PList
                      [PDict [(ascii ''name'', PStr (ascii ''Environment'')),
                              (ascii ''value'', PStr (environ_get w (ascii ''CHECK_MODE'') (ascii ''default''))),
                              (ascii ''ok'', PBool True)],
                       PDict [(ascii ''name'', PStr (ascii ''CPU Usage'')),
                              (ascii ''value'', PStr (ascii ''Normal'')),
                              (ascii ''ok'', PBool True)],
                       PDict [(ascii ''name'', PStr (ascii ''External API'')),
                              (ascii ''value'', PStr (ascii ''Reachable'')),
                              (ascii ''ok'', PBool True)]])])"
  by (simp add: check_health_def check_health_run_def utcnow_call_def environ_get_call_def
        initial_result_def checks_append_def determine_status_def
        failed_checks_def warning_count_def critical_count_def Let_def)


lemma raised_Inr [simp]: "raised out (Inr x) = Inr x"
  by (simp add: raised_def)

lemma raised_Inl [simp]: "raised out (Inl e) = Inl (e, out)"
  by (simp add: raised_def)


lemma report_json:
  "report w \<lparr>args_verbose = v, args_json = True\<rparr> code result =
     Inr (json_dumps (if v then Some 2 else None) result @ [10], code)"
  by (simp add: report_def print_line_def json_dumps_encodable)



lemma report_exit_code:
  "report w a code result = Inr (out, code') \<Longrightarrow> code' = code"
  by (auto simp: report_def and_then_def split: sum.splits if_splits)

lemma split_lines_line:
  "10 \<notin> set l \<Longrightarrow> split_lines (l @ 10 # rest) = l # split_lines rest"
  by (induction l) auto








lemma split_lines_concat:
  "list_all (\<lambda>l. 10 \<notin> set l) ls \<Longrightarrow> split_lines (concat (map (\<lambda>l. l @ [10]) ls)) = ls"
  by (induction ls) (simp_all add: split_lines_line)

subsection \<open>The two counts of lines 59 and 60\<close>

lemma partition_counts:
  "filter_r (\<lambda>c. and_then (py_get c k) (\<lambda>v. Inr (v \<noteq> x))) fs = Inr ws \<Longrightarrow>
   filter_r (\<lambda>c. and_then (py_get c k) (\<lambda>v. Inr (v = x))) fs = Inr cs \<Longrightarrow>
   length ws + length cs = length fs"
proof (induction fs arbitrary: ws cs)
  case Nil
  then show ?case by simp
next
  case (Cons f fs)
  from Cons.prems(1) obtain v where v: "py_get f k = Inr v"
    by (cases "py_get f k") simp_all
  from Cons.prems(1) v obtain ws' where ws': "filter_r (\<lambda>c. and_then (py_get c k) (\<lambda>v. Inr (v \<noteq> x))) fs = Inr ws'"
    by (cases "filter_r (\<lambda>c. and_then (py_get c k) (\<lambda>v. Inr (v \<noteq> x))) fs") simp_all
  from Cons.prems(2) v obtain cs' where cs': "filter_r (\<lambda>c. and_then (py_get c k) (\<lambda>v. Inr (v = x))) fs = Inr cs'"
    by (cases "filter_r (\<lambda>c. and_then (py_get c k) (\<lambda>v. Inr (v = x))) fs") simp_all
  from Cons.IH [OF ws' cs'] Cons.prems v ws' cs' show ?case
    by (auto split: if_splits)
qed

lemma sample_entries: "list_all is_check_entry sample_checks"
  by (simp add: sample_checks_def is_check_entry_def has_str_def has_bool_def)

lemma sample_subscript: "subscript sample_result (ascii ''checks'') = Inr (PList sample_checks)"
  by (simp add: sample_result_def)

lemma sample_critical: "list_ex (\<lambda>c. check_failed c \<and> is_critical c) sample_checks"
  by (simp add: sample_checks_def check_failed_def is_critical_def)





subsection \<open>The two JSON texts of the result\<close>

lemma encode_plain:
  "list_all (\<lambda>c. 32 \<le> c \<and> c \<le> 126 \<and> c \<noteq> 34 \<and> c \<noteq> 92) s \<Longrightarrow>
   encode_basestring_ascii s = [34] @ s @ [34]"
proof -
  assume "list_all (\<lambda>c. 32 \<le> c \<and> c \<le> 126 \<and> c \<noteq> 34 \<and> c \<noteq> 92) s"
  then have "concat (map escape_char s) = s"
    by (induction s) (simp_all add: escape_char_def)
  then show ?thesis by (simp add: encode_basestring_ascii_def)
qed

lemma encode_literals:
  "encode_basestring_ascii (ascii ''timestamp'') = [34] @ ascii ''timestamp'' @ [34]"
  "encode_basestring_ascii (ascii ''status'') = [34] @ ascii ''status'' @ [34]"
  "encode_basestring_ascii (ascii ''checks'') = [34] @ ascii ''checks'' @ [34]"
  "encode_basestring_ascii (ascii ''name'') = [34] @ ascii ''name'' @ [34]"
  "encode_basestring_ascii (ascii ''value'') = [34] @ ascii ''value'' @ [34]"
  "encode_basestring_ascii (ascii ''ok'') = [34] @ ascii ''ok'' @ [34]"
  "encode_basestring_ascii (ascii ''OK'') = [34] @ ascii ''OK'' @ [34]"
  "encode_basestring_ascii (ascii ''Environment'') = [34] @ ascii ''Environment'' @ [34]"
  "encode_basestring_ascii (ascii ''CPU Usage'') = [34] @ ascii ''CPU Usage'' @ [34]"
  "encode_basestring_ascii (ascii ''Normal'') = [34] @ ascii ''Normal'' @ [34]"
  "encode_basestring_ascii (ascii ''External API'') = [34] @ ascii ''External API'' @ [34]"
  "encode_basestring_ascii (ascii ''Reachable'') = [34] @ ascii ''Reachable'' @ [34]"
  by (rule encode_plain, simp add: ascii_def)+

lemma main_json_compact:
  "main w \<lparr>args_verbose = False, args_json = True\<rparr> = Inr (compact_line w @ [10], 0)"
  unfolding main_def check_health_value compact_line_def
  apply (simp add: report_json json_dumps_def encode_literals del: ascii_eq_iff)
  apply (simp add: ascii_def)
  done

lemma main_json_indented:
  "main w \<lparr>args_verbose = True, args_json = True\<rparr>
     = Inr (concat (map (\<lambda>l. l @ [10]) (indented_lines w)), 0)"
  unfolding main_def check_health_value indented_lines_def
  apply (simp add: report_json json_dumps_def encode_literals newline_indent_def del: ascii_eq_iff)
  apply (simp add: ascii_def eval_nat_numeral)
  done

lemma indented_lines_no_lf: "list_all (\<lambda>l. 10 \<notin> set l) (indented_lines w)"
  by (simp add: indented_lines_def encode_basestring_ascii_no_lf ascii_def)


subsection \<open>scanstring reads back what encode\_basestring\_ascii wrote\<close>

lemma hex_val_digit: "d < 16 \<Longrightarrow> hex_val (hex_digit d) = Some d"
  by (simp add: hex_val_def hex_digit_def)

lemma hex4_arith:
  assumes "n < 65536"
  shows "((n div 4096 mod 16 * 16 + n div 256 mod 16) * 16 + n div 16 mod 16) * 16 + n mod 16 = (n::nat)"
proof -
  define a where "a = n div 16"
  define b where "b = a div 16"
  define c where "c = b div 16"
  have b': "n div 256 = b" unfolding b_def a_def by (simp add: div_mult2_eq [symmetric])
  have c': "n div 4096 = c" unfolding c_def b_def a_def by (simp add: div_mult2_eq [symmetric])
  have "c < 16" using assms unfolding c' [symmetric] by (simp add: less_mult_imp_div_less)
  then have c16: "c mod 16 = c" by simp
  have 1: "c * 16 + b mod 16 = b" unfolding c_def by simp
  have 2: "b * 16 + a mod 16 = a" unfolding b_def by simp
  have 3: "a * 16 + n mod 16 = n" unfolding a_def by simp
  show ?thesis
    unfolding c' b' c16 a_def [symmetric] 1 2 3 ..
qed

lemma hex4_val_Some:
  "hex_val a = Some x \<Longrightarrow> hex_val b = Some y \<Longrightarrow> hex_val c = Some z \<Longrightarrow> hex_val d = Some t \<Longrightarrow>
   hex4_val a b c d = Some (((x * 16 + y) * 16 + z) * 16 + t)"
  by (simp add: hex4_val_def)

lemma hex4_val_digits:
  assumes "n < 65536"
  shows "hex4_val (hex_digit (n div 4096 mod 16)) (hex_digit (n div 256 mod 16))
            (hex_digit (n div 16 mod 16)) (hex_digit (n mod 16)) = Some n"
proof -
  have "hex4_val (hex_digit (n div 4096 mod 16)) (hex_digit (n div 256 mod 16))
            (hex_digit (n div 16 mod 16)) (hex_digit (n mod 16))
        = Some (((n div 4096 mod 16 * 16 + n div 256 mod 16) * 16 + n div 16 mod 16) * 16
                + n mod 16)"
    by (rule hex4_val_Some; rule hex_val_digit; simp)
  then show ?thesis by (simp only: hex4_arith [OF assms])
qed

lemma decode_hex4: "n < 65536 \<Longrightarrow> decode_uXXXX (hex4 n @ r) = Some n"
  using hex4_val_digits [of n] by (simp add: decode_uXXXX_def hex4_def)

lemma length_hex4 [simp]: "length (hex4 n) = 4"
  by (simp add: hex4_def)

lemma scan_short_escape:
  "e \<noteq> 117 \<Longrightarrow> unescape e = Some ch \<Longrightarrow> scanstring (92 # e # t) = emit ch (scanstring t)"
  by simp

lemma scan_plain:
  "c \<noteq> 34 \<Longrightarrow> c \<noteq> 92 \<Longrightarrow> 32 \<le> c \<Longrightarrow> scanstring (c # t) = emit c (scanstring t)"
  by simp

lemma scan_u_single:
  assumes "n < 65536"
    and "55296 \<le> n \<and> n \<le> 56319 \<Longrightarrow>
           take 2 t \<noteq> [92, 117]
           \<or> (\<exists>u. decode_uXXXX (drop 2 t) = Some u \<and> \<not> (56320 \<le> u \<and> u \<le> 57343))"
  shows "scanstring (92 # 117 # hex4 n @ t) = emit n (scanstring t)"
proof (cases "55296 \<le> n \<and> n \<le> 56319 \<and> take 2 t = [92, 117]")
  case True
  with assms(2) obtain u where "decode_uXXXX (drop 2 t) = Some u" "\<not> (56320 \<le> u \<and> u \<le> 57343)"
    by blast
  with True show ?thesis
    by (auto simp: decode_hex4 [OF assms(1)])
next
  case False
  then show ?thesis
    by (auto simp: decode_hex4 [OF assms(1)])
qed

lemma drop_hex4_pair: "drop 10 (hex4 hi @ a # b # hex4 lo @ t) = t"
  by (simp add: hex4_def)

lemma scan_u_pair:
  assumes "55296 \<le> hi" "hi \<le> 56319" "56320 \<le> lo" "lo \<le> 57343"
  shows "scanstring (92 # 117 # hex4 hi @ 92 # 117 # hex4 lo @ t)
           = emit (65536 + ((hi - 55296) * 1024 + (lo - 56320))) (scanstring t)"
proof -
  have hi: "hi < 65536" and lo: "lo < 65536" using assms by simp_all
  have d: "decode_uXXXX (hex4 hi @ 92 # 117 # hex4 lo @ t) = Some hi"
    by (rule decode_hex4 [OF hi])
  show ?thesis
    using assms by (simp add: d decode_hex4 [OF lo] drop_hex4_pair)
qed

lemma escape_char_u:
  assumes "c < 65536" "\<not> (32 \<le> c \<and> c \<le> 126)" "c \<noteq> 8" "c \<noteq> 12" "c \<noteq> 10" "c \<noteq> 13" "c \<noteq> 9"
  shows "escape_char c = 92 # 117 # hex4 c"
  using assms by (auto simp: escape_char_def)

lemma escape_char_big:
  assumes "65536 \<le> c"
  shows "escape_char c = 92 # 117 # hex4 (55296 + (c - 65536) div 1024 mod 1024)
           @ 92 # 117 # hex4 (56320 + (c - 65536) mod 1024)"
  using assms by (simp add: escape_char_def Let_def)

lemma scanstring_escape_char:
  assumes "c < 1114112"
    and "55296 \<le> c \<and> c \<le> 56319 \<Longrightarrow>
           take 2 t \<noteq> [92, 117]
           \<or> (\<exists>u. decode_uXXXX (drop 2 t) = Some u \<and> \<not> (56320 \<le> u \<and> u \<le> 57343))"
  shows "scanstring (escape_char c @ t) = emit c (scanstring t)"
proof -
  consider (short) "c = 92 \<or> c = 34 \<or> c = 8 \<or> c = 12 \<or> c = 10 \<or> c = 13 \<or> c = 9"
    | (plain) "32 \<le> c" "c \<le> 126" "c \<noteq> 92" "c \<noteq> 34"
    | (u) "c < 65536" "\<not> (32 \<le> c \<and> c \<le> 126)" "c \<noteq> 8" "c \<noteq> 12" "c \<noteq> 10" "c \<noteq> 13" "c \<noteq> 9"
    | (big) "65536 \<le> c"
    by linarith
  then show ?thesis
  proof cases
    case short
    then show ?thesis
      by (auto simp: escape_char_def unescape_def)
  next
    case plain
    then show ?thesis
      by (simp add: escape_char_def)
  next
    case u
    show ?thesis
      unfolding escape_char_u [OF u] using scan_u_single [OF u(1) assms(2)] by simp
  next
    case big
    define n where "n = c - 65536"
    have n: "n < 1048576" using assms(1) big by (simp add: n_def)
    have q: "n div 1024 < 1024" using n by (simp add: less_mult_imp_div_less)
    have c: "c = 65536 + (n div 1024 * 1024 + n mod 1024)"
      using big by (simp add: n_def)
    have "scanstring (escape_char c @ t)
        = emit (65536 + ((55296 + n div 1024 mod 1024 - 55296) * 1024 + (56320 + n mod 1024 - 56320)))
            (scanstring t)"
      unfolding escape_char_big [OF big] n_def [symmetric]
      using scan_u_pair [of "55296 + n div 1024 mod 1024" "56320 + n mod 1024" t] q
      by simp
    also have "65536 + ((55296 + n div 1024 mod 1024 - 55296) * 1024 + (56320 + n mod 1024 - 56320)) = c"
    proof -
      have m: "n div 1024 mod 1024 = n div 1024" using q by simp
      show ?thesis unfolding m using c by simp
    qed
    finally show ?thesis .
  qed
qed

lemma escaped_start:
  assumes "take 2 (escape_char d @ t) = [92, 117]"
  shows "\<exists>u. decode_uXXXX (drop 2 (escape_char d @ t)) = Some u
             \<and> (u = d \<or> (55296 \<le> u \<and> u \<le> 56319))"
proof -
  consider (short) "d = 92 \<or> d = 34 \<or> d = 8 \<or> d = 12 \<or> d = 10 \<or> d = 13 \<or> d = 9"
    | (plain) "32 \<le> d" "d \<le> 126" "d \<noteq> 92" "d \<noteq> 34"
    | (u) "d < 65536" "\<not> (32 \<le> d \<and> d \<le> 126)" "d \<noteq> 8" "d \<noteq> 12" "d \<noteq> 10" "d \<noteq> 13" "d \<noteq> 9"
    | (big) "65536 \<le> d"
    by linarith
  then show ?thesis
  proof cases
    case short
    with assms show ?thesis by (auto simp: escape_char_def)
  next
    case plain
    with assms show ?thesis by (auto simp: escape_char_def)
  next
    case u
    show ?thesis
      unfolding escape_char_u [OF u] by (simp add: decode_hex4 [OF u(1)])
  next
    case big
    have m: "(d - 65536) div 1024 mod 1024 < 1024" by simp
    then have h: "55296 + (d - 65536) div 1024 mod 1024 < 65536" by linarith
    from m have m': "(d - 65536) div 1024 mod 1024 \<le> 1023" by linarith
    show ?thesis
      unfolding escape_char_big [OF big]
      using decode_hex4 [OF h] m' by simp
  qed
qed

lemma emit_Inr [simp]: "emit c (Inr (s, r)) = Inr (c # s, r)"
  by (simp add: emit_def)

lemma scanstring_escape:
  "valid_str s \<Longrightarrow>
   scanstring (concat (map escape_char s) @ 34 # rest) = Inr (merge_surrogates s, rest)"
proof (induction s rule: merge_surrogates.induct)
  case (1 c d cs)
  from "1.prems" have vc: "c < 1114112" and vd: "d < 1114112"
    and vcs: "valid_str cs" and vdcs: "valid_str (d # cs)"
    by (simp_all add: valid_str_def)
  let ?t = "concat (map escape_char cs) @ 34 # rest"
  show ?case
  proof (cases "55296 \<le> c \<and> c \<le> 56319 \<and> 56320 \<le> d \<and> d \<le> 57343")
    case True
    then have ec: "escape_char c = 92 # 117 # hex4 c" and ed: "escape_char d = 92 # 117 # hex4 d"
      by (simp_all add: escape_char_def)
    from True have "scanstring (92 # 117 # hex4 c @ 92 # 117 # hex4 d @ ?t)
            = emit (65536 + ((c - 55296) * 1024 + (d - 56320))) (scanstring ?t)"
      by (intro scan_u_pair) simp_all
    with True "1.IH"(1) [OF True vcs] show ?thesis
      by (simp add: ec ed)
  next
    case False
    have "scanstring (escape_char c @ escape_char d @ ?t)
            = emit c (scanstring (escape_char d @ ?t))"
    proof (rule scanstring_escape_char [OF vc])
      assume hc: "55296 \<le> c \<and> c \<le> 56319"
      show "take 2 (escape_char d @ ?t) \<noteq> [92, 117]
           \<or> (\<exists>u. decode_uXXXX (drop 2 (escape_char d @ ?t)) = Some u
                  \<and> \<not> (56320 \<le> u \<and> u \<le> 57343))"
      proof (cases "take 2 (escape_char d @ ?t) = [92, 117]")
        case True
        from escaped_start [OF True] obtain u where
          "decode_uXXXX (drop 2 (escape_char d @ ?t)) = Some u"
          "u = d \<or> (55296 \<le> u \<and> u \<le> 56319)" by blast
        with hc False show ?thesis by auto
      next
        case False
        then show ?thesis by simp
      qed
    qed
    with False "1.IH"(2) [OF False vdcs] show ?thesis
      by simp
  qed
next
  case 3
  show ?case by simp
next
  case (2 c)
  then have vc: "c < 1114112" by (simp add: valid_str_def)
  have "scanstring (escape_char c @ 34 # rest) = emit c (scanstring (34 # rest))"
    by (rule scanstring_escape_char [OF vc]) simp
  then show ?case by simp
qed


subsection \<open>The scanner reads back what the encoder wrote\<close>

lemma skip_ws_Cons: "\<not> is_ws c \<Longrightarrow> skip_ws (c # s) = c # s"
  by (simp add: skip_ws_def)

lemma skip_ws_append: "list_all is_ws w \<Longrightarrow> skip_ws (w @ s) = skip_ws s"
  by (induction w) (simp_all add: skip_ws_def)

lemma skip_ws_all: "list_all is_ws w \<Longrightarrow> skip_ws w = []"
  by (induction w) (simp_all add: skip_ws_def)

lemma newline_indent_ws: "list_all is_ws (newline_indent n lvl)"
  by (simp add: newline_indent_def is_ws_def list_all_iff)

lemma json_encode_start: "\<exists>c t. json_encode ind lvl v = c # t \<and> value_start c"
proof (cases v)
  case (PBool b)
  then show ?thesis by (cases b) (simp_all add: ascii_def value_start_def)
next
  case (PList xs)
  then show ?thesis by (cases ind) (simp_all add: ascii_def value_start_def)
next
  case (PDict kvs)
  then show ?thesis by (cases ind) (simp_all add: ascii_def value_start_def)
qed (simp_all add: ascii_def value_start_def encode_basestring_ascii_def)


lemma value_start_not_ws: "value_start c \<Longrightarrow> \<not> is_ws c"
  by (auto simp: value_start_def is_ws_def)

lemma join_start:
  assumes "xs \<noteq> []" and "\<And>x. x \<in> set xs \<Longrightarrow> \<exists>c t. f x = c # t \<and> P c"
  shows "\<exists>c t. join sep (map f xs) = c # t \<and> P c"
proof (cases xs)
  case Nil
  with assms(1) show ?thesis by simp
next
  case (Cons x ys)
  from assms(2) [of x] Cons obtain c t where c: "f x = c # t" "P c" by auto
  show ?thesis
  proof (cases ys)
    case Nil
    with Cons c show ?thesis by simp
  next
    case (Cons y zs)
    with \<open>xs = x # ys\<close> c show ?thesis by simp
  qed
qed

lemma parse_array_join:
  assumes ih: "\<And>x F rest. x \<in> set xs \<Longrightarrow> length (enc x) \<le> F \<Longrightarrow>
                 parse_value F (enc x @ rest) = Inr (g x, rest)"
    and st: "\<And>x. x \<in> set xs \<Longrightarrow> \<exists>c t. enc x = c # t \<and> value_start c"
    and ne: "xs \<noteq> []"
    and w1: "list_all is_ws w1" and w2: "list_all is_ws w2"
    and len: "length (join (44 # w1) (map enc xs)) < F"
  shows "parse_array F (join (44 # w1) (map enc xs) @ w2 @ 93 # rest) = Inr (map g xs, rest)"
  using ih st ne len
proof (induction xs arbitrary: F)
  case Nil
  then show ?case by simp
next
  case (Cons x ys)
  from Cons.prems(4) obtain n where F: "F = Suc n" by (cases F) simp_all
  from Cons.prems(2) [of x] obtain c t where c: "enc x = c # t" "value_start c" by auto
  show ?case
  proof (cases ys)
    case Nil
    have "length (enc x) \<le> Suc n" using Cons.prems(4) Nil F by simp
    then have "parse_value (Suc n) (enc x @ w2 @ 93 # rest) = Inr (g x, w2 @ 93 # rest)"
      by (intro Cons.prems(1)) simp_all
    moreover have "skip_ws (w2 @ 93 # rest) = 93 # rest"
      by (simp add: skip_ws_append [OF w2] skip_ws_Cons is_ws_def)
    ultimately show ?thesis
      using Nil F by simp
  next
    case (Cons y zs)
    let ?tail = "join (44 # w1) (map enc (y # zs))"
    have j: "join (44 # w1) (map enc (x # ys)) = enc x @ 44 # w1 @ ?tail"
      using Cons by simp
    have lx: "length (enc x) \<le> Suc n" and lt: "length ?tail < n"
      using Cons.prems(4) F c unfolding j by simp_all
    have pv: "parse_value (Suc n) (enc x @ 44 # w1 @ ?tail @ w2 @ 93 # rest)
                = Inr (g x, 44 # w1 @ ?tail @ w2 @ 93 # rest)"
      using lx by (intro Cons.prems(1)) simp_all
    from join_start [of "y # zs" enc value_start "44 # w1"] Cons.prems(2) Cons
    obtain d u where d: "?tail = d # u" "value_start d" by auto
    have sk: "skip_ws (w1 @ ?tail @ w2 @ 93 # rest) = ?tail @ w2 @ 93 # rest"
      unfolding skip_ws_append [OF w1] using d by (simp add: skip_ws_Cons value_start_not_ws)
    have rec: "parse_array n (?tail @ w2 @ 93 # rest) = Inr (map g (y # zs), rest)"
      using Cons.IH [of n] Cons.prems(1,2) Cons lt by simp
    show ?thesis
      unfolding j F using pv sk rec Cons
      by (simp add: skip_ws_Cons is_ws_def)
  qed
qed

lemma parse_object_join:
  assumes ih: "\<And>kv F rest. kv \<in> set kvs \<Longrightarrow> length (enc (snd kv)) \<le> F \<Longrightarrow>
                 parse_value F (enc (snd kv) @ rest) = Inr (g (snd kv), rest)"
    and st: "\<And>kv. kv \<in> set kvs \<Longrightarrow> \<exists>c t. enc (snd kv) = c # t \<and> value_start c"
    and vk: "\<And>kv. kv \<in> set kvs \<Longrightarrow> valid_str (fst kv)"
    and ne: "kvs \<noteq> []"
    and w1: "list_all is_ws w1" and w2: "list_all is_ws w2"
    and len: "length (join (44 # w1)
                (map (\<lambda>kv. encode_basestring_ascii (fst kv) @ ascii '': '' @ enc (snd kv)) kvs)) < F"
  shows "parse_object F
           (join (44 # w1)
              (map (\<lambda>kv. encode_basestring_ascii (fst kv) @ ascii '': '' @ enc (snd kv)) kvs)
            @ w2 @ 125 # rest)
         = Inr (map (\<lambda>kv. (merge_surrogates (fst kv), g (snd kv))) kvs, rest)"
  using ih st vk ne len
proof (induction kvs arbitrary: F)
  case Nil
  then show ?case by simp
next
  case (Cons kv ys)
  let ?item = "\<lambda>kv. encode_basestring_ascii (fst kv) @ ascii '': '' @ enc (snd kv)"
  from Cons.prems(5) obtain n where F: "F = Suc n" by (cases F) simp_all
  from Cons.prems(2) [of kv] obtain c t where c: "enc (snd kv) = c # t" "value_start c" by auto
  have vkv: "valid_str (fst kv)" using Cons.prems(3) by simp
  have item: "?item kv @ r = 34 # concat (map escape_char (fst kv)) @ 34 # 58 # 32 # enc (snd kv) @ r" for r
    by (simp add: encode_basestring_ascii_def ascii_def)
  have key: "scanstring (concat (map escape_char (fst kv)) @ 34 # 58 # 32 # enc (snd kv) @ r)
               = Inr (merge_surrogates (fst kv), 58 # 32 # enc (snd kv) @ r)" for r
    by (rule scanstring_escape [OF vkv])
  have sv: "skip_ws (32 # enc (snd kv) @ r) = enc (snd kv) @ r" for r
    using c by (simp add: skip_ws_def is_ws_def value_start_not_ws [unfolded is_ws_def])
  show ?case
  proof (cases ys)
    case Nil
    have "length (enc (snd kv)) \<le> Suc n" using Cons.prems(5) Nil F by simp
    then have pv: "parse_value (Suc n) (enc (snd kv) @ w2 @ 125 # rest)
                     = Inr (g (snd kv), w2 @ 125 # rest)"
      by (intro Cons.prems(1)) simp_all
    have sk: "skip_ws (w2 @ 125 # rest) = 125 # rest"
      by (simp add: skip_ws_append [OF w2] skip_ws_Cons is_ws_def)
    have "parse_object (Suc n) (?item kv @ w2 @ 125 # rest)
            = Inr ([(merge_surrogates (fst kv), g (snd kv))], rest)"
      unfolding item
      by (simp add: key sv pv sk skip_ws_Cons is_ws_def del: scanstring.simps parse_value.simps(2))
    then show ?thesis
      using Nil F by simp
  next
    case (Cons y zs)
    define tail where "tail = join (44 # w1) (map ?item (y # zs))"
    have j: "join (44 # w1) (map ?item (kv # ys)) = ?item kv @ 44 # w1 @ tail"
      using Cons by (simp add: tail_def)
    have lx: "length (enc (snd kv)) \<le> Suc n" and lt: "length tail < n"
      using Cons.prems(5) F c unfolding j by simp_all
    have pv: "parse_value (Suc n) (enc (snd kv) @ 44 # w1 @ tail @ w2 @ 125 # rest)
                = Inr (g (snd kv), 44 # w1 @ tail @ w2 @ 125 # rest)"
      using lx by (intro Cons.prems(1)) simp_all
    have "\<exists>d u. tail = d # u \<and> d = 34"
      unfolding tail_def
      by (rule join_start [of "y # zs" ?item "\<lambda>d. d = 34" "44 # w1"])
         (simp_all add: encode_basestring_ascii_def)
    then obtain u where d: "tail = 34 # u" by auto
    have sk: "skip_ws (w1 @ tail @ w2 @ 125 # rest) = tail @ w2 @ 125 # rest"
      unfolding skip_ws_append [OF w1] unfolding d by (simp add: skip_ws_Cons is_ws_def)
    have rec: "parse_object n (tail @ w2 @ 125 # rest)
                 = Inr (map (\<lambda>kv. (merge_surrogates (fst kv), g (snd kv))) (y # zs), rest)"
      unfolding tail_def
      using Cons.IH [of n] Cons.prems(1,2,3) Cons lt [unfolded tail_def] by simp
    have "parse_object (Suc n) (?item kv @ 44 # w1 @ tail @ w2 @ 125 # rest)
            = Inr ((merge_surrogates (fst kv), g (snd kv))
                   # map (\<lambda>kv. (merge_surrogates (fst kv), g (snd kv))) (y # zs), rest)"
      unfolding item
      by (simp add: key sv pv sk rec skip_ws_Cons is_ws_def
            del: scanstring.simps parse_value.simps(2))
    then show ?thesis
      unfolding j F using Cons by simp
  qed
qed


lemma start_not_close: "value_start c \<Longrightarrow> c \<noteq> 93 \<and> c \<noteq> 125"
  by (auto simp: value_start_def)

lemma parse_value_array:
  assumes j: "\<exists>c t. js = c # t \<and> value_start c"
    and w0: "list_all is_ws w0"
    and pa: "parse_array n (js @ tr) = Inr (ys, rest)"
  shows "parse_value (Suc n) (91 # w0 @ js @ tr) = Inr (PList ys, rest)"
proof -
  from j obtain c t where c: "js = c # t" "value_start c" by auto
  have "skip_ws (w0 @ js @ tr) = js @ tr"
    unfolding skip_ws_append [OF w0] using c by (simp add: skip_ws_Cons value_start_not_ws)
  moreover have "take 1 (js @ tr) \<noteq> [93]"
    using c start_not_close [of c] by simp
  ultimately show ?thesis
    using pa by simp
qed

lemma parse_value_object:
  assumes j: "\<exists>c t. js = c # t \<and> c = 34"
    and w0: "list_all is_ws w0"
    and pa: "parse_object n (js @ tr) = Inr (ps, rest)"
  shows "parse_value (Suc n) (123 # w0 @ js @ tr) = Inr (PDict (dict_of_pairs ps), rest)"
proof -
  from j obtain t where c: "js = 34 # t" by auto
  have "skip_ws (w0 @ js @ tr) = js @ tr"
    unfolding skip_ws_append [OF w0] using c by (simp add: skip_ws_Cons is_ws_def)
  moreover have "take 1 (js @ tr) \<noteq> [125]"
    using c by simp
  ultimately show ?thesis
    using pa by simp
qed

lemma parse_value_encode:
  "valid_val v \<Longrightarrow> length (json_encode ind lvl v) \<le> F \<Longrightarrow>
   parse_value F (json_encode ind lvl v @ rest) = Inr (reloaded v, rest)"
proof (induction v arbitrary: lvl F rest)
  case PNone
  then obtain n where "F = Suc n" by (cases F) (simp_all add: ascii_def)
  then show ?case by (simp add: ascii_def)
next
  case (PBool b)
  then obtain n where "F = Suc n" by (cases F) (simp_all add: ascii_def split: if_splits)
  then show ?case by (cases b) (simp_all add: ascii_def)
next
  case (PStr s)
  then obtain n where "F = Suc n" by (cases F) (simp_all add: encode_basestring_ascii_def)
  with PStr.prems(1) show ?case
    by (simp add: encode_basestring_ascii_def scanstring_escape del: scanstring.simps)
next
  case (PList xs)
  show ?case
  proof (cases "xs = []")
    case True
    with PList.prems obtain n where "F = Suc n" by (cases F) (simp_all add: ascii_def)
    with True show ?thesis by (simp add: ascii_def skip_ws_Cons is_ws_def)
  next
    case False
    define lvl' where "lvl' = (case ind of None \<Rightarrow> lvl | Some n \<Rightarrow> Suc lvl)"
    define w0 where "w0 = (case ind of None \<Rightarrow> [] | Some n \<Rightarrow> newline_indent n (Suc lvl))"
    define w1 where "w1 = (case ind of None \<Rightarrow> [32] | Some n \<Rightarrow> newline_indent n (Suc lvl))"
    define w2 where "w2 = (case ind of None \<Rightarrow> [] | Some n \<Rightarrow> newline_indent n lvl)"
    define js where "js = join (44 # w1) (map (json_encode ind lvl') xs)"
    have enc: "json_encode ind lvl (PList xs) = 91 # w0 @ js @ w2 @ [93]"
      using False
      by (cases ind) (simp_all add: lvl'_def w0_def w1_def w2_def js_def ascii_def)
    have ws: "list_all is_ws w0" "list_all is_ws w1" "list_all is_ws w2"
      by (cases ind; simp add: w0_def w1_def w2_def newline_indent_ws is_ws_def)+
    from PList.prems(2) obtain n where F: "F = Suc n" and n: "length js < n"
      unfolding enc by (cases F) simp_all
    have ih: "\<And>x F rest. x \<in> set xs \<Longrightarrow> length (json_encode ind lvl' x) \<le> F \<Longrightarrow>
                parse_value F (json_encode ind lvl' x @ rest) = Inr (reloaded x, rest)"
      using PList.IH PList.prems(1) by (simp add: list_all_iff)
    have pa: "parse_array n (js @ w2 @ 93 # rest) = Inr (map reloaded xs, rest)"
      unfolding js_def
      by (rule parse_array_join [OF ih json_encode_start False ws(2) ws(3)])
         (use n in \<open>simp_all add: js_def\<close>)
    have st: "\<exists>c t. js = c # t \<and> value_start c"
      unfolding js_def by (rule join_start [OF False]) (rule json_encode_start)
    show ?thesis
      unfolding enc F
      using parse_value_array [OF st ws(1) pa] by simp
  qed
next
  case (PDict kvs)
  show ?case
  proof (cases "kvs = []")
    case True
    with PDict.prems obtain n where "F = Suc n" by (cases F) (simp_all add: ascii_def)
    with True show ?thesis by (simp add: ascii_def skip_ws_Cons is_ws_def dict_of_pairs_def)
  next
    case False
    define lvl' where "lvl' = (case ind of None \<Rightarrow> lvl | Some n \<Rightarrow> Suc lvl)"
    define w0 where "w0 = (case ind of None \<Rightarrow> [] | Some n \<Rightarrow> newline_indent n (Suc lvl))"
    define w1 where "w1 = (case ind of None \<Rightarrow> [32] | Some n \<Rightarrow> newline_indent n (Suc lvl))"
    define w2 where "w2 = (case ind of None \<Rightarrow> [] | Some n \<Rightarrow> newline_indent n lvl)"
    define js where "js = join (44 # w1)
       (map (\<lambda>kv. encode_basestring_ascii (fst kv) @ ascii '': '' @ json_encode ind lvl' (snd kv)) kvs)"
    have enc: "json_encode ind lvl (PDict kvs) = 123 # w0 @ js @ w2 @ [125]"
      using False
      by (cases ind) (simp_all add: lvl'_def w0_def w1_def w2_def js_def ascii_def)
    have ws: "list_all is_ws w0" "list_all is_ws w1" "list_all is_ws w2"
      by (cases ind; simp add: w0_def w1_def w2_def newline_indent_ws is_ws_def)+
    from PDict.prems(2) obtain n where F: "F = Suc n" and n: "length js < n"
      unfolding enc by (cases F) simp_all
    have sn: "snd kv \<in> Basic_BNFs.snds kv" for kv :: "pystr \<times> pyval"
      by (cases kv) simp
    have ih: "\<And>kv F rest. kv \<in> set kvs \<Longrightarrow> length (json_encode ind lvl' (snd kv)) \<le> F \<Longrightarrow>
                parse_value F (json_encode ind lvl' (snd kv) @ rest) = Inr (reloaded (snd kv), rest)"
      using PDict.IH [OF _ sn] PDict.prems(1) by (simp add: list_all_iff)
    have vk: "\<And>kv. kv \<in> set kvs \<Longrightarrow> valid_str (fst kv)"
      using PDict.prems(1) by (simp add: list_all_iff)
    have st0: "\<And>kv. kv \<in> set kvs \<Longrightarrow>
                 \<exists>c t. json_encode ind lvl' (snd kv) = c # t \<and> value_start c"
      by (rule json_encode_start)
    have pa: "parse_object n (js @ w2 @ 125 # rest)
                = Inr (map (\<lambda>kv. (merge_surrogates (fst kv), reloaded (snd kv))) kvs, rest)"
      unfolding js_def
      by (rule parse_object_join [where enc = "json_encode ind lvl'" and g = reloaded,
                 OF ih st0 vk False ws(2) ws(3)])
         (use n in \<open>simp_all add: js_def\<close>)
    have st: "\<exists>c t. js = c # t \<and> c = 34"
      unfolding js_def by (rule join_start [OF False]) (simp add: encode_basestring_ascii_def)
    show ?thesis
      unfolding enc F
      using parse_value_object [OF st ws(1) pa] by simp
  qed
qed

lemma json_loads_dumps:
  assumes "valid_val v" and "list_all is_ws w"
  shows "json_loads (json_dumps ind v @ w) = Inr (reloaded v)"
proof -
  from json_encode_start [of ind 0 v] obtain c t where
    c: "json_encode ind 0 v = c # t" "value_start c" by auto
  have c': "c \<noteq> 65279" using c(2) by (auto simp: value_start_def)
  have sk: "skip_ws (json_encode ind 0 v @ w) = json_encode ind 0 v @ w"
    using c by (simp add: skip_ws_Cons value_start_not_ws)
  have pv: "parse_value (length (json_encode ind 0 v @ w)) (json_encode ind 0 v @ w)
              = Inr (reloaded v, w)"
    by (rule parse_value_encode [OF assms(1)]) simp
  show ?thesis
    unfolding json_loads_def json_dumps_def sk pv
    using c c' by (simp add: skip_ws_all [OF assms(2)])
qed


lemma merge_surrogates_plain: "list_all (\<lambda>c. c < 55296) s \<Longrightarrow> merge_surrogates s = s"
  by (induction s rule: merge_surrogates.induct) simp_all

lemma merge_literals:
  "merge_surrogates (ascii ''timestamp'') = ascii ''timestamp''"
  "merge_surrogates (ascii ''status'') = ascii ''status''"
  "merge_surrogates (ascii ''checks'') = ascii ''checks''"
  "merge_surrogates (ascii ''name'') = ascii ''name''"
  "merge_surrogates (ascii ''value'') = ascii ''value''"
  "merge_surrogates (ascii ''ok'') = ascii ''ok''"
  "merge_surrogates (ascii ''OK'') = ascii ''OK''"
  "merge_surrogates (ascii ''Environment'') = ascii ''Environment''"
  "merge_surrogates (ascii ''CPU Usage'') = ascii ''CPU Usage''"
  "merge_surrogates (ascii ''Normal'') = ascii ''Normal''"
  "merge_surrogates (ascii ''External API'') = ascii ''External API''"
  "merge_surrogates (ascii ''Reachable'') = ascii ''Reachable''"
  by (rule merge_surrogates_plain, simp add: ascii_def)+

lemma valid_literals:
  "valid_str (ascii ''timestamp'')" "valid_str (ascii ''status'')" "valid_str (ascii ''checks'')"
  "valid_str (ascii ''name'')" "valid_str (ascii ''value'')" "valid_str (ascii ''ok'')"
  "valid_str (ascii ''OK'')" "valid_str (ascii ''Environment'')" "valid_str (ascii ''CPU Usage'')"
  "valid_str (ascii ''Normal'')" "valid_str (ascii ''External API'')" "valid_str (ascii ''Reachable'')"
  by (simp_all add: valid_str_def ascii_def)

lemma report_json_loads:
  assumes "valid_val result"
  shows "\<exists>out. report w \<lparr>args_verbose = v, args_json = True\<rparr> code result = Inr (out, code)
           \<and> json_loads out = Inr (reloaded result)"
  unfolding report_json
  using json_loads_dumps [OF assms, of "[10]" "if v then Some 2 else None"]
  by (simp add: is_ws_def)


section \<open>The claims\<close>

text \<open>
  Claim C1. For every list of CheckEntry records held by the result, the status that
  lines 57 to 70 derive is CRITICAL if at least one entry has \<^verbatim>\<open>ok = False\<close> and
  \<^verbatim>\<open>severity = "critical"\<close>; otherwise WARNING if at least one entry has
  \<^verbatim>\<open>ok = False\<close> (its severity absent or any other value); otherwise OK.
\<close>

theorem status_invariant:
  assumes "subscript result (ascii ''checks'') = Inr (PList cs)"
    and "list_all is_check_entry cs"
  shows "\<exists>code r. determine_status result = Inr (code, r) \<and>
     subscript r (ascii ''status'') =
       Inr (PStr (if list_ex (\<lambda>c. check_failed c \<and> is_critical c) cs then ascii ''CRITICAL''
                  else if list_ex check_failed cs then ascii ''WARNING''
                  else ascii ''OK''))"
proof -
  from determine_status_value [OF assms] obtain d where
    "determine_status result =
       Inr (if list_ex (\<lambda>c. check_failed c \<and> is_critical c) cs then 2
            else if list_ex check_failed cs then 1 else 0,
            PDict (AList.update (ascii ''status'')
              (PStr (if list_ex (\<lambda>c. check_failed c \<and> is_critical c) cs then ascii ''CRITICAL''
                     else if list_ex check_failed cs then ascii ''WARNING'' else ascii ''OK'')) d))"
    by blast
  then show ?thesis
    by (simp add: update_conv')
qed

theorem status_invariant_witness:
  "subscript sample_result (ascii ''checks'') = Inr (PList sample_checks)
   \<and> list_all is_check_entry sample_checks
   \<and> (\<exists>code r. determine_status sample_result = Inr (code, r)
         \<and> subscript r (ascii ''status'') = Inr (PStr (ascii ''CRITICAL'')))"
  using status_invariant [OF sample_subscript sample_entries]
  by (simp add: sample_entries sample_subscript sample_critical)






text \<open>
  Claim C3. For every environment and every \<open>verbose\<close> argument, \<open>check_health\<close>
  returns exit code 0 and a result whose status is OK: no check has failed, so the
  WARNING and CRITICAL branches are not taken.
\<close>

theorem check_health_always_ok:
  "\<exists>r. check_health w verbose = Inr (0, r) \<and>
       subscript r (ascii ''status'') = Inr (PStr (ascii ''OK'')) \<and>
       failed_checks r = Inr []"
  unfolding check_health_value by (simp add: failed_checks_def)

theorem check_health_always_ok_witness:
  "\<exists>r. check_health unset_world True = Inr (0, r) \<and>
       subscript r (ascii ''status'') = Inr (PStr (ascii ''OK'')) \<and>
       failed_checks r = Inr []"
  by (rule check_health_always_ok)


text \<open>
  Claim C4. The one CheckEntry named Environment has the value of CHECK\_MODE, or
  \<^verbatim>\<open>default\<close> when the variable is unset; exit code and status are the same in every
  other environment.
\<close>

theorem environment_entry_value:
  "\<exists>r cs c. check_health w verbose = Inr (0, r) \<and>
     subscript r (ascii ''checks'') = Inr (PList cs) \<and>
     filter (\<lambda>c. subscript c (ascii ''name'') = Inr (PStr (ascii ''Environment''))) cs = [c] \<and>
     subscript c (ascii ''value'') =
       Inr (PStr (case environ w (ascii ''CHECK_MODE'') of None \<Rightarrow> ascii ''default'' | Some s \<Rightarrow> s)) \<and>
     (\<exists>r'. check_health w' verbose' = Inr (0, r') \<and>
        subscript r' (ascii ''status'') = subscript r (ascii ''status''))"
  unfolding check_health_value by (simp add: environ_get_def)

theorem environment_entry_value_witness:
  "\<exists>r cs c. check_health foo_world False = Inr (0, r) \<and>
     subscript r (ascii ''checks'') = Inr (PList cs) \<and>
     filter (\<lambda>c. subscript c (ascii ''name'') = Inr (PStr (ascii ''Environment''))) cs = [c] \<and>
     subscript c (ascii ''value'') = Inr (PStr (ascii ''foo'')) \<and>
     (\<exists>r'. check_health unset_world True = Inr (0, r') \<and>
        subscript r' (ascii ''status'') = subscript r (ascii ''status''))"
  using environment_entry_value [of foo_world False unset_world True]
  by (simp add: foo_world_def)






text \<open>
  Claim C6. With the JSON flag the program prints \<^verbatim>\<open>json.dumps(result, indent=2)\<close> when the
  verbose flag is set and \<^verbatim>\<open>json.dumps(result)\<close> when it is not, each followed by a line
  feed. The text without indent holds no line feed, whatever the result is, so it is a
  single line. For the result of \<open>check_health\<close> the two texts are \<open>compact_line\<close> and
  the 21 lines of \<open>indented_lines\<close>, whose items are indented by two spaces for each
  level of nesting.
\<close>

theorem json_indentation:
  "report w \<lparr>args_verbose = v, args_json = True\<rparr> code result
     = Inr (json_dumps (if v then Some 2 else None) result @ [10], code)
   \<and> 10 \<notin> set (json_dumps None result)
   \<and> split_lines (json_dumps None result @ [10]) = [json_dumps None result]
   \<and> main w \<lparr>args_verbose = False, args_json = True\<rparr> = Inr (compact_line w @ [10], 0)
   \<and> main w \<lparr>args_verbose = True, args_json = True\<rparr>
       = Inr (concat (map (\<lambda>l. l @ [10]) (indented_lines w)), 0)
   \<and> split_lines (concat (map (\<lambda>l. l @ [10]) (indented_lines w))) = indented_lines w"
proof (intro conjI)
  show "report w \<lparr>args_verbose = v, args_json = True\<rparr> code result
     = Inr (json_dumps (if v then Some 2 else None) result @ [10], code)"
    by (rule report_json)
  show "10 \<notin> set (json_dumps None result)"
    by (rule json_dumps_compact_no_lf)
  then show "split_lines (json_dumps None result @ [10]) = [json_dumps None result]"
    using split_lines_line [of "json_dumps None result" "[]"] by simp
  show "main w \<lparr>args_verbose = False, args_json = True\<rparr> = Inr (compact_line w @ [10], 0)"
    by (rule main_json_compact)
  show "main w \<lparr>args_verbose = True, args_json = True\<rparr>
       = Inr (concat (map (\<lambda>l. l @ [10]) (indented_lines w)), 0)"
    by (rule main_json_indented)
  show "split_lines (concat (map (\<lambda>l. l @ [10]) (indented_lines w))) = indented_lines w"
    by (rule split_lines_concat [OF indented_lines_no_lf])
qed

theorem json_indentation_witness:
  "main linefeed_world \<lparr>args_verbose = False, args_json = True\<rparr>
     = Inr (compact_line linefeed_world @ [10], 0)
   \<and> split_lines (compact_line linefeed_world @ [10]) = [compact_line linefeed_world]
   \<and> main linefeed_world \<lparr>args_verbose = True, args_json = True\<rparr>
       = Inr (concat (map (\<lambda>l. l @ [10]) (indented_lines linefeed_world)), 0)
   \<and> length (split_lines (concat (map (\<lambda>l. l @ [10]) (indented_lines linefeed_world)))) = 21
   \<and> encode_basestring_ascii (environ_get linefeed_world (ascii ''CHECK_MODE'') (ascii ''default''))
       = [34, 97, 92, 110, 98, 34]"
proof -
  note t = json_indentation [of linefeed_world False 0 "PNone"]
  have c: "json_dumps None (PDict [(ascii ''timestamp'', PStr (utcnow_isoformat linefeed_world)),
                    (ascii ''status'', PStr (ascii ''OK'')),
                    (ascii ''checks'', PList
                      [PDict [(ascii ''name'', PStr (ascii ''Environment'')),
                              (ascii ''value'', PStr (environ_get linefeed_world (ascii ''CHECK_MODE'') (ascii ''default''))),
                              (ascii ''ok'', PBool True)],
                       PDict [(ascii ''name'', PStr (ascii ''CPU Usage'')),
                              (ascii ''value'', PStr (ascii ''Normal'')),
                              (ascii ''ok'', PBool True)],
                       PDict [(ascii ''name'', PStr (ascii ''External API'')),
                              (ascii ''value'', PStr (ascii ''Reachable'')),
                              (ascii ''ok'', PBool True)]])]) = compact_line linefeed_world"
    using main_json_compact [of linefeed_world]
    unfolding main_def check_health_value by (simp add: report_json)
  have s: "split_lines (compact_line linefeed_world @ [10]) = [compact_line linefeed_world]"
    using json_indentation [of linefeed_world False 0 "PDict [(ascii ''timestamp'', PStr (utcnow_isoformat linefeed_world)),
                    (ascii ''status'', PStr (ascii ''OK'')),
                    (ascii ''checks'', PList
                      [PDict [(ascii ''name'', PStr (ascii ''Environment'')),
                              (ascii ''value'', PStr (environ_get linefeed_world (ascii ''CHECK_MODE'') (ascii ''default''))),
                              (ascii ''ok'', PBool True)],
                       PDict [(ascii ''name'', PStr (ascii ''CPU Usage'')),
                              (ascii ''value'', PStr (ascii ''Normal'')),
                              (ascii ''ok'', PBool True)],
                       PDict [(ascii ''name'', PStr (ascii ''External API'')),
                              (ascii ''value'', PStr (ascii ''Reachable'')),
                              (ascii ''ok'', PBool True)]])]"]
    unfolding c by simp
  have l: "length (indented_lines linefeed_world) = 21"
    by (simp add: indented_lines_def)
  have e: "encode_basestring_ascii (environ_get linefeed_world (ascii ''CHECK_MODE'') (ascii ''default''))
       = [34, 97, 92, 110, 98, 34]"
    by (simp add: linefeed_world_def environ_get_def encode_basestring_ascii_def escape_char_def ascii_def)
  show ?thesis
    using t s l e by simp
qed


text \<open>
  Claim C7. With the JSON flag, in a world whose strings are Python strings (code points below
  \<open>0x110000\<close>), \<^verbatim>\<open>json.loads\<close> of the printed text returns an object with exactly the keys
  \<^verbatim>\<open>timestamp\<close>, \<^verbatim>\<open>status\<close> and \<^verbatim>\<open>checks\<close>, in this order, whose \<^verbatim>\<open>checks\<close> are three
  objects with exactly the keys \<^verbatim>\<open>name\<close>, \<^verbatim>\<open>value\<close> and \<^verbatim>\<open>ok\<close>, with or without the
  verbose flag. The values are those of the result; in the time stamp and in the value of
  CHECK\_MODE a high surrogate that a low surrogate follows comes back as the one code
  point the pair encodes. More generally the printed text of any result whose strings are
  Python strings loads as \<open>reloaded result\<close>.
\<close>

theorem json_output_round_trip:
  "(valid_world w \<longrightarrow>
      (\<exists>out. main w \<lparr>args_verbose = v, args_json = True\<rparr> = Inr (out, 0) \<and>
         json_loads out =
           Inr (PDict
             [(ascii ''timestamp'', PStr (merge_surrogates (utcnow_isoformat w))),
              (ascii ''status'', PStr (ascii ''OK'')),
              (ascii ''checks'', PList
                [PDict [(ascii ''name'', PStr (ascii ''Environment'')),
                        (ascii ''value'', PStr (merge_surrogates
                           (environ_get w (ascii ''CHECK_MODE'') (ascii ''default'')))),
                        (ascii ''ok'', PBool True)],
                 PDict [(ascii ''name'', PStr (ascii ''CPU Usage'')),
                        (ascii ''value'', PStr (ascii ''Normal'')),
                        (ascii ''ok'', PBool True)],
                 PDict [(ascii ''name'', PStr (ascii ''External API'')),
                        (ascii ''value'', PStr (ascii ''Reachable'')),
                        (ascii ''ok'', PBool True)]])])))
   \<and> (valid_val result \<longrightarrow>
      (\<exists>out. report w \<lparr>args_verbose = v, args_json = True\<rparr> code result = Inr (out, code)
           \<and> json_loads out = Inr (reloaded result)))"
proof (intro conjI impI)
  assume vw: "valid_world w"
  let ?r = "PDict [(ascii ''timestamp'', PStr (utcnow_isoformat w)),
                    (ascii ''status'', PStr (ascii ''OK'')),
                    (ascii ''checks'', PList
                      [PDict [(ascii ''name'', PStr (ascii ''Environment'')),
                              (ascii ''value'', PStr (environ_get w (ascii ''CHECK_MODE'') (ascii ''default''))),
                              (ascii ''ok'', PBool True)],
                       PDict [(ascii ''name'', PStr (ascii ''CPU Usage'')),
                              (ascii ''value'', PStr (ascii ''Normal'')),
                              (ascii ''ok'', PBool True)],
                       PDict [(ascii ''name'', PStr (ascii ''External API'')),
                              (ascii ''value'', PStr (ascii ''Reachable'')),
                              (ascii ''ok'', PBool True)]])]"
  have vr: "valid_val ?r"
    using vw by (simp add: valid_world_def valid_literals)
  have m: "main w \<lparr>args_verbose = v, args_json = True\<rparr>
             = report w \<lparr>args_verbose = v, args_json = True\<rparr> 0 ?r"
    unfolding main_def check_health_value by simp
  have rl: "reloaded ?r = PDict
             [(ascii ''timestamp'', PStr (merge_surrogates (utcnow_isoformat w))),
              (ascii ''status'', PStr (ascii ''OK'')),
              (ascii ''checks'', PList
                [PDict [(ascii ''name'', PStr (ascii ''Environment'')),
                        (ascii ''value'', PStr (merge_surrogates
                           (environ_get w (ascii ''CHECK_MODE'') (ascii ''default'')))),
                        (ascii ''ok'', PBool True)],
                 PDict [(ascii ''name'', PStr (ascii ''CPU Usage'')),
                        (ascii ''value'', PStr (ascii ''Normal'')),
                        (ascii ''ok'', PBool True)],
                 PDict [(ascii ''name'', PStr (ascii ''External API'')),
                        (ascii ''value'', PStr (ascii ''Reachable'')),
                        (ascii ''ok'', PBool True)]])]"
    by (simp add: merge_literals dict_of_pairs_def)
  from report_json_loads [OF vr, where w = w and v = v and code = 0]
  show "\<exists>out. main w \<lparr>args_verbose = v, args_json = True\<rparr> = Inr (out, 0) \<and>
         json_loads out =
           Inr (PDict
             [(ascii ''timestamp'', PStr (merge_surrogates (utcnow_isoformat w))),
              (ascii ''status'', PStr (ascii ''OK'')),
              (ascii ''checks'', PList
                [PDict [(ascii ''name'', PStr (ascii ''Environment'')),
                        (ascii ''value'', PStr (merge_surrogates
                           (environ_get w (ascii ''CHECK_MODE'') (ascii ''default'')))),
                        (ascii ''ok'', PBool True)],
                 PDict [(ascii ''name'', PStr (ascii ''CPU Usage'')),
                        (ascii ''value'', PStr (ascii ''Normal'')),
                        (ascii ''ok'', PBool True)],
                 PDict [(ascii ''name'', PStr (ascii ''External API'')),
                        (ascii ''value'', PStr (ascii ''Reachable'')),
                        (ascii ''ok'', PBool True)]])])"
    unfolding m rl by blast
next
  assume "valid_val result"
  then show "\<exists>out. report w \<lparr>args_verbose = v, args_json = True\<rparr> code result = Inr (out, code)
           \<and> json_loads out = Inr (reloaded result)"
    by (rule report_json_loads)
qed

theorem json_output_round_trip_witness:
  "valid_world foo_world
   \<and> valid_val sample_result
   \<and> (\<exists>out. main foo_world \<lparr>args_verbose = True, args_json = True\<rparr> = Inr (out, 0) \<and>
         json_loads out =
           Inr (PDict
             [(ascii ''timestamp'', PStr (ascii ''2024-05-01T12:00:00'')),
              (ascii ''status'', PStr (ascii ''OK'')),
              (ascii ''checks'', PList
                [PDict [(ascii ''name'', PStr (ascii ''Environment'')),
                        (ascii ''value'', PStr (ascii ''foo'')),
                        (ascii ''ok'', PBool True)],
                 PDict [(ascii ''name'', PStr (ascii ''CPU Usage'')),
                        (ascii ''value'', PStr (ascii ''Normal'')),
                        (ascii ''ok'', PBool True)],
                 PDict [(ascii ''name'', PStr (ascii ''External API'')),
                        (ascii ''value'', PStr (ascii ''Reachable'')),
                        (ascii ''ok'', PBool True)]])]))
   \<and> (\<exists>out. report foo_world \<lparr>args_verbose = True, args_json = True\<rparr> 2 sample_result = Inr (out, 2)
           \<and> json_loads out = Inr sample_result)"
proof -
  have vw: "valid_world foo_world"
    by (simp add: valid_world_def foo_world_def environ_get_def valid_str_def ascii_def)
  have vr: "valid_val sample_result"
    by (simp add: sample_result_def sample_checks_def valid_str_def ascii_def)
  have m1: "merge_surrogates (utcnow_isoformat foo_world) = ascii ''2024-05-01T12:00:00''"
    unfolding foo_world_def by (simp, rule merge_surrogates_plain, simp add: ascii_def)
  have m2: "merge_surrogates (environ_get foo_world (ascii ''CHECK_MODE'') (ascii ''default''))
              = ascii ''foo''"
    unfolding foo_world_def environ_get_def
    by (simp, rule merge_surrogates_plain, simp add: ascii_def)
  have rl: "reloaded sample_result = sample_result"
    by (simp add: sample_result_def sample_checks_def dict_of_pairs_def ascii_def)
  show ?thesis
    using json_output_round_trip [of foo_world True sample_result 2] vw vr
    unfolding m1 m2 rl by simp
qed


text \<open>
  Claim C8. Two runs that differ only in the verbose flag get the same pair from
  \<open>check_health\<close> and, without the JSON flag, print the same text and exit alike; the
  human-readable rendering of any result does not depend on the flag.
\<close>

theorem verbose_only_json_indent:
  "check_health w True = check_health w False \<and>
   main w \<lparr>args_verbose = True, args_json = False\<rparr>
     = main w \<lparr>args_verbose = False, args_json = False\<rparr> \<and>
   report w \<lparr>args_verbose = True, args_json = False\<rparr> code result
     = report w \<lparr>args_verbose = False, args_json = False\<rparr> code result"
  by (simp add: check_health_value main_def report_def)

theorem verbose_only_json_indent_witness:
  "check_health foo_world True = check_health foo_world False \<and>
   main foo_world \<lparr>args_verbose = True, args_json = False\<rparr>
     = main foo_world \<lparr>args_verbose = False, args_json = False\<rparr> \<and>
   report foo_world \<lparr>args_verbose = True, args_json = False\<rparr> 2 sample_result
     = report foo_world \<lparr>args_verbose = False, args_json = False\<rparr> 2 sample_result"
  by (rule verbose_only_json_indent)






text \<open>
  Claim C10. The result holds exactly three checks, Environment, CPU Usage and External
  API in this order, with the values CHECK\_MODE (or \<^verbatim>\<open>default\<close>), Normal and Reachable,
  each with \<^verbatim>\<open>ok = True\<close> and without a \<^verbatim>\<open>severity\<close> key; no check has failed and both
  counts are 0. For every list of failed checks on which lines 59 and 60 return,
  \<^verbatim>\<open>warning_count + critical_count\<close> is the length of the list.
\<close>

theorem three_fixed_checks:
  "(\<exists>r. check_health w verbose = Inr (0, r) \<and>
      subscript r (ascii ''checks'') = Inr (PList
        [PDict [(ascii ''name'', PStr (ascii ''Environment'')),
                (ascii ''value'', PStr (case environ w (ascii ''CHECK_MODE'') of
                                          None \<Rightarrow> ascii ''default'' | Some s \<Rightarrow> s)),
                (ascii ''ok'', PBool True)],
         PDict [(ascii ''name'', PStr (ascii ''CPU Usage'')),
                (ascii ''value'', PStr (ascii ''Normal'')),
                (ascii ''ok'', PBool True)],
         PDict [(ascii ''name'', PStr (ascii ''External API'')),
                (ascii ''value'', PStr (ascii ''Reachable'')),
                (ascii ''ok'', PBool True)]]) \<and>
      failed_checks r = Inr [] \<and> warning_count [] = Inr 0 \<and> critical_count [] = Inr 0)
   \<and> (warning_count fs = Inr wc \<and> critical_count fs = Inr cc \<longrightarrow> wc + cc = length fs)"
proof (intro conjI impI)
  show "\<exists>r. check_health w verbose = Inr (0, r) \<and>
      subscript r (ascii ''checks'') = Inr (PList
        [PDict [(ascii ''name'', PStr (ascii ''Environment'')),
                (ascii ''value'', PStr (case environ w (ascii ''CHECK_MODE'') of
                                          None \<Rightarrow> ascii ''default'' | Some s \<Rightarrow> s)),
                (ascii ''ok'', PBool True)],
         PDict [(ascii ''name'', PStr (ascii ''CPU Usage'')),
                (ascii ''value'', PStr (ascii ''Normal'')),
                (ascii ''ok'', PBool True)],
         PDict [(ascii ''name'', PStr (ascii ''External API'')),
                (ascii ''value'', PStr (ascii ''Reachable'')),
                (ascii ''ok'', PBool True)]]) \<and>
      failed_checks r = Inr [] \<and> warning_count [] = Inr 0 \<and> critical_count [] = Inr 0"
    unfolding check_health_value
    by (simp add: environ_get_def failed_checks_def warning_count_def critical_count_def)
next
  assume h: "warning_count fs = Inr wc \<and> critical_count fs = Inr cc"
  let ?k = "ascii ''severity''" and ?x = "PStr (ascii ''critical'')"
  from h obtain ws where ws:
    "filter_r (\<lambda>c. and_then (py_get c ?k) (\<lambda>v. Inr (v \<noteq> ?x))) fs = Inr ws" and wc: "wc = length ws"
    by (cases "filter_r (\<lambda>c. and_then (py_get c ?k) (\<lambda>v. Inr (v \<noteq> ?x))) fs")
       (auto simp: warning_count_def)
  from h obtain cs where cs:
    "filter_r (\<lambda>c. and_then (py_get c ?k) (\<lambda>v. Inr (v = ?x))) fs = Inr cs" and cc: "cc = length cs"
    by (cases "filter_r (\<lambda>c. and_then (py_get c ?k) (\<lambda>v. Inr (v = ?x))) fs")
       (auto simp: critical_count_def)
  from partition_counts [OF ws cs] wc cc show "wc + cc = length fs" by simp
qed

theorem three_fixed_checks_witness:
  "warning_count sample_checks = Inr 1 \<and> critical_count sample_checks = Inr 1
   \<and> 1 + 1 = length sample_checks
   \<and> (\<exists>r. check_health unset_world False = Inr (0, r)
         \<and> subscript r (ascii ''checks'') = Inr (PList
        [PDict [(ascii ''name'', PStr (ascii ''Environment'')),
                (ascii ''value'', PStr (ascii ''default'')),
                (ascii ''ok'', PBool True)],
         PDict [(ascii ''name'', PStr (ascii ''CPU Usage'')),
                (ascii ''value'', PStr (ascii ''Normal'')),
                (ascii ''ok'', PBool True)],
         PDict [(ascii ''name'', PStr (ascii ''External API'')),
                (ascii ''value'', PStr (ascii ''Reachable'')),
                (ascii ''ok'', PBool True)]]))"
  using three_fixed_checks [of unset_world False sample_checks 1 1]
  by (simp add: unset_world_def warning_count_def critical_count_def sample_checks_def) blast

end
